theory Spec2Isabelle
  imports Main
begin

section \<open>The node graph of \<^verbatim>\<open>fsl::Skiplist\<close>\<close>

text \<open>
  The container of \<^verbatim>\<open>src/skiplist/Skiplist.hpp\<close> is a stack of doubly linked
  lists. Every list starts with a dummy node; the dummies form the leftmost column and
  \<^verbatim>\<open>m_head\<close> is the topmost one. A real node points to the \<^verbatim>\<open>Pair\<close> of its element,
  and all nodes of one column point to the same \<^verbatim>\<open>Pair\<close>.

  The model keeps the lists as they are threaded by \<^verbatim>\<open>Next\<close>: \<open>m_lists\<close> holds, for
  every dummy node, the real nodes of its list from left to right, the lowest list
  first. A real node is written as the address of the \<^verbatim>\<open>Pair\<close> it points to, so a node
  is found by the number of its list and its \<^verbatim>\<open>KeyValPair\<close> pointer (\<open>None\<close> in a dummy
  node). The \<^verbatim>\<open>Pair\<close> objects live in \<open>pairs\<close>, a memory indexed by address;
  \<open>next_pair\<close> is the address the next \<^verbatim>\<open>new value_type\<close> returns.
\<close>

datatype Node = Node (Level: nat) (KeyValPair: "nat option")

text \<open>
  \<^verbatim>\<open>chooseLevel\<close> reads one double from the random source and uses it in two ways only:
  it tests \<^verbatim>\<open>random == 0\<close>, and otherwise it takes
  \<^verbatim>\<open>static_cast<int>((log(random) / log(0.5)) + 1)\<close>. A draw is therefore kept as
  either zero or the natural number \<open>\<lfloor>log\<^bsub>1/2\<^esub> random\<rfloor>\<close> of a double strictly
  between 0 and 1. The source is the infinite sequence of the draws still to come.
\<close>

datatype draw = RandomZero | RandomLog nat

record ('k, 'v) Skiplist =
  s_MULTIMAP :: bool
  m_levelCount :: int
  m_count :: nat
  m_lists :: "nat list list"
  m_begin :: "Node option"
  m_tail :: "Node option"
  m_countMin :: nat
  m_countMax :: nat
  m_balanced :: bool
  m_keyCompare :: "'k \<Rightarrow> 'k \<Rightarrow> bool"
  m_rng :: "nat \<Rightarrow> draw"
  m_distribution :: "nat \<times> nat"
  pairs :: "nat \<Rightarrow> 'k \<times> 'v"
  next_pair :: nat

subsection \<open>Pointers between nodes\<close>

text \<open>
  \<open>after i xs\<close> are the nodes that follow node \<open>i\<close> in a list and \<open>before i xs\<close> the
  nodes in front of it. No list of a container holds a node twice; on other lists
  \<open>after\<close> counts from the last and \<open>before\<close> from the first occurrence, so that every
  walk along \<^verbatim>\<open>Next\<close> or \<^verbatim>\<open>Prev\<close> comes to an end.
\<close>

definition after :: "nat \<Rightarrow> nat list \<Rightarrow> nat list" where
  "after i xs = rev (takeWhile (\<lambda>x. x \<noteq> i) (rev xs))"

definition before :: "nat \<Rightarrow> nat list \<Rightarrow> nat list" where
  "before i xs = takeWhile (\<lambda>x. x \<noteq> i) xs"

definition list_of :: "('k, 'v) Skiplist \<Rightarrow> nat \<Rightarrow> nat list" where
  "list_of s l = (if l < length (m_lists s) then m_lists s ! l else [])"

definition m_head :: "('k, 'v) Skiplist \<Rightarrow> Node option" where
  "m_head s = (if m_lists s = [] then None else Some (Node (length (m_lists s) - 1) None))"

definition Next :: "('k, 'v) Skiplist \<Rightarrow> Node \<Rightarrow> Node option" where
  "Next s n =
     (case KeyValPair n of
        None \<Rightarrow>
          (case list_of s (Level n) of
             [] \<Rightarrow> None
           | x # _ \<Rightarrow> Some (Node (Level n) (Some x)))
      | Some i \<Rightarrow>
          if i \<in> set (list_of s (Level n)) then
            (case after i (list_of s (Level n)) of
               [] \<Rightarrow> None
             | x # _ \<Rightarrow> Some (Node (Level n) (Some x)))
          else None)"

definition Prev :: "('k, 'v) Skiplist \<Rightarrow> Node \<Rightarrow> Node option" where
  "Prev s n =
     (case KeyValPair n of
        None \<Rightarrow> None
      | Some i \<Rightarrow>
          if i \<in> set (list_of s (Level n)) then
            (if before i (list_of s (Level n)) = [] then Some (Node (Level n) None)
             else Some (Node (Level n) (Some (last (before i (list_of s (Level n)))))))
          else None)"

definition Down :: "('k, 'v) Skiplist \<Rightarrow> Node \<Rightarrow> Node option" where
  "Down s n = (if Level n = 0 then None else Some (Node (Level n - 1) (KeyValPair n)))"

definition Up :: "('k, 'v) Skiplist \<Rightarrow> Node \<Rightarrow> Node option" where
  "Up s n =
     (if Suc (Level n) < length (m_lists s) \<and>
         (case KeyValPair n of None \<Rightarrow> True | Some i \<Rightarrow> i \<in> set (list_of s (Suc (Level n))))
      then Some (Node (Suc (Level n)) (KeyValPair n)) else None)"

text \<open>\<^verbatim>\<open>node->KeyValPair->first\<close> and \<^verbatim>\<open>node->KeyValPair->second\<close>. A dummy node has no
  \<^verbatim>\<open>Pair\<close>; the source never reads one there and the model leaves the result open.\<close>

definition first :: "('k, 'v) Skiplist \<Rightarrow> Node \<Rightarrow> 'k" where
  "first s n = fst (pairs s (the (KeyValPair n)))"

definition second :: "('k, 'v) Skiplist \<Rightarrow> Node \<Rightarrow> 'v" where
  "second s n = snd (pairs s (the (KeyValPair n)))"

subsection \<open>Construction, level manager, \<^verbatim>\<open>clear\<close>\<close>

text \<open>
  The default constructor takes the member initialisers of the class: no level, no
  element, null pointers, thresholds 0, \<^verbatim>\<open>m_balanced = true\<close>, a default-constructed
  comparator and distribution (the unit interval) and a random source seeded from the
  clock. The comparator object, the clock-seeded source and the template argument
  \<^verbatim>\<open>MULTIMAP\<close> are parameters here. A new container owns no memory.
\<close>

definition Skiplist_ctor ::
  "bool \<Rightarrow> ('k \<Rightarrow> 'k \<Rightarrow> bool) \<Rightarrow> (nat \<Rightarrow> draw) \<Rightarrow> (nat \<Rightarrow> 'k \<times> 'v) \<Rightarrow> nat \<Rightarrow> ('k, 'v) Skiplist" where
  "Skiplist_ctor multimap compare seeded mem free =
     \<lparr> s_MULTIMAP = multimap, m_levelCount = 0, m_count = 0, m_lists = [],
       m_begin = None, m_tail = None, m_countMin = 0, m_countMax = 0, m_balanced = True,
       m_keyCompare = compare, m_rng = seeded, m_distribution = (0, 1),
       pairs = mem, next_pair = free \<rparr>"

text \<open>
  \<^verbatim>\<open>updateMinMax\<close> casts \<^verbatim>\<open>pow(2.0, m_levelCount - 1)\<close> and
  \<^verbatim>\<open>pow(2.0, m_levelCount) - 1\<close> to \<^verbatim>\<open>size_type\<close>: with no level the first is the
  cast of 0.5, which is 0. The powers are exact in a double for every level count a
  container in memory can reach.
\<close>

definition updateMinMax :: "('k, 'v) Skiplist \<Rightarrow> ('k, 'v) Skiplist" where
  "updateMinMax s =
     s\<lparr> m_countMin := (if m_levelCount s \<ge> 1 then 2 ^ nat (m_levelCount s - 1) else 0),
        m_countMax := (if m_levelCount s \<ge> 0 then 2 ^ nat (m_levelCount s) - 1 else 0) \<rparr>"

definition chooseLevel :: "('k, 'v) Skiplist \<Rightarrow> int \<times> ('k, 'v) Skiplist" where
  "chooseLevel s =
     (let random = m_rng s 0;
          s' = s\<lparr> m_rng := (\<lambda>n. m_rng s (Suc n)) \<rparr>
      in case random of
           RandomZero \<Rightarrow> (m_levelCount s, s')
         | RandomLog e \<Rightarrow>
             (let level = int e + 1
              in (if level > m_levelCount s then m_levelCount s else level, s')))"

definition addLevel :: "('k, 'v) Skiplist \<Rightarrow> ('k, 'v) Skiplist" where
  "addLevel s =
     (let s1 = updateMinMax (s\<lparr> m_levelCount := m_levelCount s + 1 \<rparr>)
      in s1\<lparr> m_lists := m_lists s1 @ [[]] \<rparr>)"

definition removeLevel :: "('k, 'v) Skiplist \<Rightarrow> ('k, 'v) Skiplist" where
  "removeLevel s =
     (let s1 = updateMinMax (s\<lparr> m_levelCount := m_levelCount s - 1 \<rparr>)
      in s1\<lparr> m_lists := butlast (m_lists s1) \<rparr>)"

text \<open>
  The member-wise \<^verbatim>\<open>swap\<close> of two containers. The node graph and the \<^verbatim>\<open>Pair\<close>
  objects hang off \<^verbatim>\<open>m_head\<close> and change owner with it.
\<close>

definition swap_Skiplist ::
  "('k, 'v) Skiplist \<times> ('k, 'v) Skiplist \<Rightarrow> ('k, 'v) Skiplist \<times> ('k, 'v) Skiplist" where
  "swap_Skiplist lr = (snd lr, fst lr)"

text \<open>
  \<^verbatim>\<open>clear\<close> builds a default-constructed \<^verbatim>\<open>newSkiplist\<close>, swaps \<^verbatim>\<open>m_rng\<close> and
  \<^verbatim>\<open>m_distribution\<close> with it, then swaps all members; \<^verbatim>\<open>newSkiplist\<close> goes out of scope
  with the old nodes. The memory stays where it is, only ownership moves, so the result
  keeps \<open>pairs\<close> and \<open>next_pair\<close> of the heap it runs in.
\<close>

definition clear ::
  "('k \<Rightarrow> 'k \<Rightarrow> bool) \<Rightarrow> (nat \<Rightarrow> draw) \<Rightarrow> ('k, 'v) Skiplist \<Rightarrow> ('k, 'v) Skiplist" where
  "clear compare seeded s =
     (let newSkiplist = Skiplist_ctor (s_MULTIMAP s) compare seeded (pairs s) (next_pair s);
          this1 = s\<lparr> m_rng := m_rng newSkiplist \<rparr>;
          new1 = newSkiplist\<lparr> m_rng := m_rng s \<rparr>;
          this2 = this1\<lparr> m_distribution := m_distribution new1 \<rparr>;
          new2 = new1\<lparr> m_distribution := m_distribution this1 \<rparr>
      in fst (swap_Skiplist (this2, new2)))"

subsection \<open>Walks along \<^verbatim>\<open>Next\<close> and \<^verbatim>\<open>Prev\<close> end\<close>

definition walk :: "('k, 'v) Skiplist \<Rightarrow> Node \<Rightarrow> nat" where
  "walk s n =
     (case KeyValPair n of
        None \<Rightarrow> Suc (length (list_of s (Level n)))
      | Some i \<Rightarrow> length (after i (list_of s (Level n))))"

definition walk_back :: "('k, 'v) Skiplist \<Rightarrow> Node \<Rightarrow> nat" where
  "walk_back s n =
     (case KeyValPair n of
        None \<Rightarrow> 0
      | Some i \<Rightarrow> Suc (length (before i (list_of s (Level n)))))"

lemma length_takeWhile_neq: "x \<in> set zs \<Longrightarrow> length (takeWhile (\<lambda>y. y \<noteq> x) zs) < length zs"
  by (induction zs) auto

lemma after_suffix: "\<exists>ys. xs = ys @ after i xs"
proof -
  have "rev (takeWhile (\<lambda>x. x \<noteq> i) (rev xs) @ dropWhile (\<lambda>x. x \<noteq> i) (rev xs)) = xs"
    by (simp only: takeWhile_dropWhile_id rev_rev_ident)
  then have "xs = rev (dropWhile (\<lambda>x. x \<noteq> i) (rev xs)) @ after i xs"
    by (simp only: rev_append after_def)
  then show ?thesis ..
qed

lemma length_after_le: "length (after i xs) \<le> length xs"
  by (simp add: after_def length_takeWhile_le [of _ "rev xs", simplified])

lemma after_append_mem: "x \<in> set zs \<Longrightarrow> after x (ys @ zs) = after x zs"
  by (simp add: after_def takeWhile_append1 [of x])

lemma length_after_mem: "x \<in> set zs \<Longrightarrow> length (after x zs) < length zs"
  using length_takeWhile_neq [of x "rev zs"] by (simp add: after_def)

lemma after_after_less:
  assumes "x \<in> set (after i xs)"
  shows "length (after x xs) < length (after i xs)"
proof -
  obtain ys where xs: "xs = ys @ after i xs"
    using after_suffix by blast
  have "after x xs = after x (ys @ after i xs)"
    using xs by simp
  also have "\<dots> = after x (after i xs)"
    using assms by (rule after_append_mem)
  finally show ?thesis
    using length_after_mem [OF assms] by simp
qed

lemma before_last_less:
  assumes "before i xs \<noteq> []"
  shows "length (before (last (before i xs)) xs) < length (before i xs)"
proof -
  let ?ps = "before i xs"
  have mem: "last ?ps \<in> set ?ps"
    using assms by simp
  have "xs = ?ps @ dropWhile (\<lambda>x. x \<noteq> i) xs"
    by (simp add: before_def)
  then have "before (last ?ps) xs = takeWhile (\<lambda>x. x \<noteq> last ?ps) (?ps @ dropWhile (\<lambda>x. x \<noteq> i) xs)"
    by (simp add: before_def)
  also have "\<dots> = takeWhile (\<lambda>x. x \<noteq> last ?ps) ?ps"
    using mem by (simp add: takeWhile_append1 [of "last ?ps"])
  finally show ?thesis
    using length_takeWhile_neq [OF mem] by simp
qed

lemma Next_walk:
  assumes "Next s n = Some n'"
  shows "Level n' = Level n \<and> walk s n' < walk s n"
proof (cases "KeyValPair n")
  case None
  then obtain x xs where "list_of s (Level n) = x # xs" and "n' = Node (Level n) (Some x)"
    using assms by (auto simp: Next_def split: list.splits)
  then show ?thesis
    using None length_after_le [of x "x # xs"] by (simp add: walk_def)
next
  case (Some i)
  then obtain x xs where a: "after i (list_of s (Level n)) = x # xs"
    and n': "n' = Node (Level n) (Some x)"
    using assms by (auto simp: Next_def split: list.splits if_splits)
  have "x \<in> set (after i (list_of s (Level n)))"
    using a by simp
  from after_after_less [OF this] show ?thesis
    using Some n' by (simp add: walk_def)
qed

lemma Prev_walk_back:
  assumes "Prev s n = Some n'"
  shows "Level n' = Level n \<and> walk_back s n' < walk_back s n"
proof (cases "KeyValPair n")
  case None
  then show ?thesis
    using assms by (simp add: Prev_def)
next
  case (Some i)
  show ?thesis
  proof (cases "before i (list_of s (Level n)) = []")
    case True
    then show ?thesis
      using assms Some by (auto simp: Prev_def walk_back_def split: if_splits)
  next
    case False
    then have "n' = Node (Level n) (Some (last (before i (list_of s (Level n)))))"
      using assms Some by (auto simp: Prev_def split: if_splits)
    then show ?thesis
      using Some before_last_less [OF False] by (simp add: walk_back_def)
  qed
qed

subsection \<open>Point query\<close>

text \<open>\<^verbatim>\<open>findRecursive(head, key)\<close>: the recursive descent of \<^verbatim>\<open>find\<close>, \<^verbatim>\<open>at\<close>,
  \<^verbatim>\<open>contains\<close> and \<^verbatim>\<open>erase\<close>.\<close>

function findRecursive :: "('k, 'v) Skiplist \<Rightarrow> Node option \<Rightarrow> 'k \<Rightarrow> Node option" where
  "findRecursive s None key = None"
| "findRecursive s (Some head) key =
     (let next = Next s head in
      if next = None \<or> m_keyCompare s key (first s (the next)) then
        findRecursive s (Down s head) key
      else if \<not> m_keyCompare s (first s (the next)) key then next
      else findRecursive s (Next s head) key)"
  by pat_completeness auto
termination
  by (relation "measures [\<lambda>(s, h, k). (case h of None \<Rightarrow> 0 | Some n \<Rightarrow> Suc (Level n)),
                          \<lambda>(s, h, k). (case h of None \<Rightarrow> 0 | Some n \<Rightarrow> walk s n)]")
     (auto simp: Down_def dest: Next_walk)

declare findRecursive.simps [simp del]

text \<open>\<^verbatim>\<open>findRecursive(head, key, compare)\<close>: the descent of \<^verbatim>\<open>lower_bound\<close> and
  \<^verbatim>\<open>upper_bound\<close>, which ends in the lowest list.\<close>

function findRecursive_COMP ::
  "('k, 'v) Skiplist \<Rightarrow> Node option \<Rightarrow> 'k \<Rightarrow> ('k \<Rightarrow> 'k \<Rightarrow> bool) \<Rightarrow> Node option" where
  "findRecursive_COMP s None key compare = None"
| "findRecursive_COMP s (Some head) key compare =
     (let next = Next s head in
      if next = None \<or> compare key (first s (the next)) then
        (if Down s head \<noteq> None then findRecursive_COMP s (Down s head) key compare
         else next)
      else findRecursive_COMP s (Next s head) key compare)"
  by pat_completeness auto
termination
  by (relation "measures [\<lambda>(s, h, k, c). (case h of None \<Rightarrow> 0 | Some n \<Rightarrow> Suc (Level n)),
                          \<lambda>(s, h, k, c). (case h of None \<Rightarrow> 0 | Some n \<Rightarrow> walk s n)]")
     (auto simp: Down_def dest: Next_walk)

declare findRecursive_COMP.simps [simp del]

text \<open>\<^verbatim>\<open>at\<close> throws \<^verbatim>\<open>std::out_of_range\<close> when the search returns no node.\<close>

datatype error = out_of_range string

definition at :: "('k, 'v) Skiplist \<Rightarrow> 'k \<Rightarrow> error + 'v" where
  "at s key =
     (let node = findRecursive s (m_head s) key in
      if node = None then Inl (out_of_range ''Invalid Skiplist<KEY, VAL> key.'')
      else Inr (second s (the node)))"

definition contains :: "('k, 'v) Skiplist \<Rightarrow> 'k \<Rightarrow> bool" where
  "contains s key = (findRecursive s (m_head s) key \<noteq> None)"

text \<open>\<^verbatim>\<open>find\<close> steps from the node found down to the lowest list; an iterator is the
  node it stands on, \<open>None\<close> for \<^verbatim>\<open>end()\<close>.\<close>

function lowest :: "('k, 'v) Skiplist \<Rightarrow> Node \<Rightarrow> Node" where
  "lowest s node = (if Down s node \<noteq> None then lowest s (the (Down s node)) else node)"
  by pat_completeness auto
termination
  by (relation "measure (\<lambda>(s, n). Level n)") (auto simp: Down_def split: if_splits)

declare lowest.simps [simp del]

definition find :: "('k, 'v) Skiplist \<Rightarrow> 'k \<Rightarrow> Node option" where
  "find s key =
     (let node = findRecursive s (m_head s) key in
      if node = None then None else Some (lowest s (the node)))"

definition lower_bound :: "('k, 'v) Skiplist \<Rightarrow> 'k \<Rightarrow> Node option" where
  "lower_bound s key =
     (let compare = (\<lambda>searchKey nodeKey. \<not> m_keyCompare s nodeKey searchKey)
      in findRecursive_COMP s (m_head s) key compare)"

definition upper_bound :: "('k, 'v) Skiplist \<Rightarrow> 'k \<Rightarrow> Node option" where
  "upper_bound s key = findRecursive_COMP s (m_head s) key (m_keyCompare s)"

subsection \<open>Probabilistic insert, top-down\<close>

text \<open>
  \<^verbatim>\<open>insertTopDownRecursive\<close> allocates the nodes of the new column on its way down and
  sets their \<^verbatim>\<open>Prev\<close> and \<^verbatim>\<open>Next\<close>, without linking them into the lists. \<^verbatim>\<open>out_node\<close>
  is that chain of new nodes, the lowest first, each written as its \<^verbatim>\<open>Prev\<close> and
  \<^verbatim>\<open>Next\<close> pointer. The function returns \<^verbatim>\<open>true\<close> with the chain, or \<^verbatim>\<open>false\<close> with
  \<^verbatim>\<open>out_node\<close> pointing to the node that blocked the insertion, after deleting the chain.
\<close>

type_synonym NewNode = "Node \<times> Node option"

datatype insert_out = Column "NewNode list" | Blocked Node

function insertTopDownRecursive ::
  "('k, 'v) Skiplist \<Rightarrow> Node \<Rightarrow> 'k \<Rightarrow> ('k \<Rightarrow> 'k \<Rightarrow> bool) \<Rightarrow> int \<Rightarrow> int \<Rightarrow> NewNode list
     \<Rightarrow> insert_out" where
  "insertTopDownRecursive s head key compare currentLevel targetLevel out_node =
     (let next = Next s head in
      if next = None \<or> compare key (first s (the next)) then
        (let out_node' =
               (if currentLevel \<le> targetLevel then (head, next) # out_node else out_node)
         in if Down s head \<noteq> None then
              insertTopDownRecursive s (the (Down s head)) key compare (currentLevel - 1)
                targetLevel out_node'
            else if s_MULTIMAP s then Column out_node'
            else if Prev s head = None \<or> compare (first s head) key then Column out_node'
            else Blocked head)
      else insertTopDownRecursive s (the (Next s head)) key compare currentLevel targetLevel
             out_node)"
  by pat_completeness auto
termination
  by (relation "measures [\<lambda>(s, h, k, c, cl, tl, out). Level h,
                          \<lambda>(s, h, k, c, cl, tl, out). walk s h]")
     (auto simp: Down_def dest: Next_walk)

declare insertTopDownRecursive.simps [simp del]

text \<open>Linking a new node for \<^verbatim>\<open>Pair\<close> \<open>p\<close> behind the node \<open>prev\<close> of a list
  (\<^verbatim>\<open>node->Prev->Next = node; node->Next->Prev = node\<close>), and the loop that zips a whole
  column in.\<close>

fun insert_after :: "nat option \<Rightarrow> nat \<Rightarrow> nat list \<Rightarrow> nat list" where
  "insert_after None p xs = p # xs"
| "insert_after (Some i) p [] = []"
| "insert_after (Some i) p (x # xs) =
     (if x = i then x # p # xs else x # insert_after (Some i) p xs)"

definition link_after :: "Node \<Rightarrow> nat \<Rightarrow> nat list list \<Rightarrow> nat list list" where
  "link_after prev p ls =
     (if Level prev < length ls
      then ls[Level prev := insert_after (KeyValPair prev) p (ls ! Level prev)]
      else ls)"

fun zip_column :: "NewNode list \<Rightarrow> nat \<Rightarrow> nat list list \<Rightarrow> nat list list" where
  "zip_column [] p ls = ls"
| "zip_column (out_node # up) p ls = zip_column up p (link_after (fst out_node) p ls)"

text \<open>\<^verbatim>\<open>insertTopDown\<close>; \<open>getAllocatedPair\<close> is the \<^verbatim>\<open>Pair\<close> the callable allocates.\<close>

definition insertTopDown ::
  "('k, 'v) Skiplist \<Rightarrow> 'k \<Rightarrow> ('k \<Rightarrow> 'k \<Rightarrow> bool) \<Rightarrow> 'k \<times> 'v
     \<Rightarrow> (Node option \<times> bool) \<times> ('k, 'v) Skiplist" where
  "insertTopDown s key compare getAllocatedPair =
     (let (level0, s1) = chooseLevel s;
          (level, s2) =
            (if m_count s1 + 1 > m_countMax s1
             then (let s' = addLevel s1 in (m_levelCount s', s'))
             else (level0, s1))
      in case insertTopDownRecursive s2 (the (m_head s2)) key compare (m_levelCount s2) level []
         of
           Column out_node \<Rightarrow>
             (let pNewPair = next_pair s2;
                  s3 = s2\<lparr> pairs := (pairs s2)(pNewPair := getAllocatedPair),
                          next_pair := Suc pNewPair \<rparr>;
                  node = Node (Level (fst (hd out_node))) (Some pNewPair);
                  s4 = (if snd (hd out_node) = m_begin s3 then s3\<lparr> m_begin := Some node \<rparr>
                        else s3);
                  s5 = (if snd (hd out_node) = None then s4\<lparr> m_tail := Some node \<rparr> else s4);
                  s6 = s5\<lparr> m_lists := zip_column out_node pNewPair (m_lists s5) \<rparr>
              in ((Some node, True), s6\<lparr> m_count := m_count s6 + 1, m_balanced := False \<rparr>))
         | Blocked node \<Rightarrow>
             ((Some node, False), if m_count s2 < m_countMin s2 then removeLevel s2 else s2))"

text \<open>\<^verbatim>\<open>insert(const value_type&)\<close>. For a map \<^verbatim>\<open>insertReturnConvert\<close> hands out the
  iterator and the flag, for a multimap the iterator alone.\<close>

definition insert ::
  "('k, 'v) Skiplist \<Rightarrow> 'k \<times> 'v \<Rightarrow> (Node option \<times> bool) \<times> ('k, 'v) Skiplist" where
  "insert s keyValPair = insertTopDown s (fst keyValPair) (m_keyCompare s) keyValPair"

subsection \<open>Deterministic balance\<close>

text \<open>
  \<^verbatim>\<open>calcBalancedLevel\<close>. Its loop divides \<^verbatim>\<open>nodeIndex\<close> while it is even; it is entered
  with \<^verbatim>\<open>nodeIndex != 0\<close>, which the division keeps. The test for 0 inside the loop
  function is never taken on that path and makes the function total.
\<close>

function calcBalancedLevel_while :: "nat \<Rightarrow> int \<Rightarrow> int" where
  "calcBalancedLevel_while nodeIndex level =
     (if nodeIndex \<noteq> 0 \<and> nodeIndex mod 2 = 0
      then calcBalancedLevel_while (nodeIndex div 2) (level + 1)
      else level)"
  by pat_completeness auto
termination
  by (relation "measure (\<lambda>(n, l). n)") auto

declare calcBalancedLevel_while.simps [simp del]

definition calcBalancedLevel :: "('k, 'v) Skiplist \<Rightarrow> nat \<Rightarrow> int" where
  "calcBalancedLevel s nodeIndex =
     (if nodeIndex = 0 then m_levelCount s else calcBalancedLevel_while nodeIndex 1)"

text \<open>
  \<^verbatim>\<open>balanceWorker\<close>. The first loop walks down the dummy column, deletes the real nodes
  of every list but the lowest and stores the dummy in \<^verbatim>\<open>tails[i]\<close>. The second loop
  visits the nodes of the lowest list from left to right; for each it appends a new
  node to the lists \<^verbatim>\<open>tails[level - 2]\<close> down to \<^verbatim>\<open>tails[0]\<close> and advances these tails.
  \<^verbatim>\<open>tails\<close> is the array of tail pointers, indexed by \<^verbatim>\<open>int\<close>; an entry that was never
  written is \<open>None\<close>. \<^verbatim>\<open>balance()\<close> passes a functor that does nothing.
\<close>

function balance_erase ::
  "('k, 'v) Skiplist \<Rightarrow> (int \<Rightarrow> Node option) \<Rightarrow> int \<Rightarrow> Node
     \<Rightarrow> ('k, 'v) Skiplist \<times> (int \<Rightarrow> Node option) \<times> Node" where
  "balance_erase s tails i levelHead =
     (if Down s levelHead \<noteq> None then
        balance_erase (s\<lparr> m_lists := (m_lists s)[Level levelHead := []] \<rparr>)
          (tails(i \<mapsto> levelHead)) (i - 1) (the (Down s levelHead))
      else (s, tails, levelHead))"
  by pat_completeness auto
termination
  by (relation "measure (\<lambda>(s, t, i, h). Level h)") (auto simp: Down_def split: if_splits)

declare balance_erase.simps [simp del]

function balance_column ::
  "nat list list \<Rightarrow> (int \<Rightarrow> Node option) \<Rightarrow> nat \<Rightarrow> int
     \<Rightarrow> nat list list \<times> (int \<Rightarrow> Node option)" where
  "balance_column ls tails p i =
     (if i \<ge> 0 then
        balance_column (link_after (the (tails i)) p ls)
          (tails(i \<mapsto> Node (Level (the (tails i))) (Some p))) p (i - 1)
      else (ls, tails))"
  by pat_completeness auto
termination
  by (relation "measure (\<lambda>(ls, t, p, i). nat (i + 1))") auto

declare balance_column.simps [simp del]

fun balance_fill ::
  "('k, 'v) Skiplist \<Rightarrow> (int \<Rightarrow> Node option) \<Rightarrow> nat list \<Rightarrow> nat \<Rightarrow> ('k, 'v) Skiplist" where
  "balance_fill s tails [] nodeCount = s"
| "balance_fill s tails (current # rest) nodeCount =
     (let level = calcBalancedLevel s nodeCount;
          (ls, tails') = balance_column (m_lists s) tails current (level - 2)
      in balance_fill (s\<lparr> m_lists := ls \<rparr>) tails' rest (nodeCount + 1))"

definition balanceWorker :: "('k, 'v) Skiplist \<Rightarrow> ('k, 'v) Skiplist" where
  "balanceWorker s =
     (if m_balanced s then s
      else (let s1 = s\<lparr> m_balanced := True \<rparr> in
            if m_head s1 = None then s1
            else (let (s2, tails, levelHead) =
                        balance_erase s1 Map.empty (m_levelCount s1 - 2) (the (m_head s1))
                  in balance_fill s2 tails (list_of s2 (Level levelHead)) 1)))"

definition balance :: "('k, 'v) Skiplist \<Rightarrow> ('k, 'v) Skiplist" where
  "balance s = balanceWorker s"

subsection \<open>Example containers\<close>

text \<open>A map from \<open>nat\<close> to \<open>nat\<close> ordered by \<open><\<close>, with a random source whose draws give
  the levels 1, 2 and the maximum in turn, and the containers a few calls build from it.\<close>

definition example_rng :: "nat \<Rightarrow> draw" where
  "example_rng n =
     (if n mod 3 = 0 then RandomLog 0 else if n mod 3 = 1 then RandomLog 1 else RandomZero)"

definition example_map :: "(nat, nat) Skiplist" where
  "example_map = Skiplist_ctor False (<) example_rng (\<lambda>a. (0, 0)) 0"

definition example_one_balanced :: "(nat, nat) Skiplist" where
  "example_one_balanced = balance (snd (insert example_map (1, 10)))"

section \<open>Theorems\<close>

text \<open>
  C10. \<^verbatim>\<open>clear()\<close> leaves every member in its default-constructed state (no element, no
  level, no node, null \<^verbatim>\<open>m_begin\<close> and \<^verbatim>\<open>m_tail\<close>, thresholds 0, \<^verbatim>\<open>m_balanced\<close> true,
  comparator default-constructed), except the random source and its distribution, which
  are the ones the container had before the call: the source of the fresh container,
  seeded from the clock, is discarded.
\<close>

theorem clear_keeps_rng:
  "clear compare seeded s =
     (Skiplist_ctor (s_MULTIMAP s) compare seeded (pairs s) (next_pair s))
       \<lparr> m_rng := m_rng s, m_distribution := m_distribution s \<rparr>
   \<and> m_count (clear compare seeded s) = 0
   \<and> m_levelCount (clear compare seeded s) = 0
   \<and> m_lists (clear compare seeded s) = []
   \<and> m_head (clear compare seeded s) = None
   \<and> m_balanced (clear compare seeded s)
   \<and> m_rng (clear compare seeded s) = m_rng s
   \<and> m_distribution (clear compare seeded s) = m_distribution s"
  by (simp add: clear_def swap_Skiplist_def Skiplist_ctor_def m_head_def)

subsection \<open>\<^verbatim>\<open>insertTopDown\<close> in three steps\<close>

text \<open>The container after \<^verbatim>\<open>chooseLevel\<close> and the \<^verbatim>\<open>addLevel\<close> test, the level chosen,
  and the container after the new column is zipped in.\<close>

definition grown :: "('k, 'v) Skiplist \<Rightarrow> ('k, 'v) Skiplist" where
  "grown s =
     (if m_count (snd (chooseLevel s)) + 1 > m_countMax (snd (chooseLevel s))
      then addLevel (snd (chooseLevel s)) else snd (chooseLevel s))"

definition target :: "('k, 'v) Skiplist \<Rightarrow> int" where
  "target s =
     (if m_count (snd (chooseLevel s)) + 1 > m_countMax (snd (chooseLevel s))
      then m_levelCount (addLevel (snd (chooseLevel s))) else fst (chooseLevel s))"

definition linked :: "('k, 'v) Skiplist \<Rightarrow> NewNode list \<Rightarrow> 'k \<times> 'v \<Rightarrow> ('k, 'v) Skiplist" where
  "linked s2 out_node kv =
     (let node = Node (Level (fst (hd out_node))) (Some (next_pair s2)) in
      s2\<lparr> pairs := (pairs s2)(next_pair s2 := kv),
          next_pair := Suc (next_pair s2),
          m_begin := (if snd (hd out_node) = m_begin s2 then Some node else m_begin s2),
          m_tail := (if snd (hd out_node) = None then Some node else m_tail s2),
          m_lists := zip_column out_node (next_pair s2) (m_lists s2),
          m_count := m_count s2 + 1,
          m_balanced := False \<rparr>)"

lemma insertTopDown_eq:
  "insertTopDown s key compare kv =
     (case insertTopDownRecursive (grown s) (the (m_head (grown s))) key compare
             (m_levelCount (grown s)) (target s) [] of
        Column out_node \<Rightarrow>
          ((Some (Node (Level (fst (hd out_node))) (Some (next_pair (grown s)))), True),
           linked (grown s) out_node kv)
      | Blocked node \<Rightarrow>
          ((Some node, False),
           if m_count (grown s) < m_countMin (grown s) then removeLevel (grown s)
           else grown s))"
  by (cases "m_count (snd (chooseLevel s)) + 1 > m_countMax (snd (chooseLevel s))")
     (simp_all add: insertTopDown_def grown_def target_def linked_def Let_def split_beta
        split: insert_out.splits)

lemma chooseLevel_balanced [simp]: "m_balanced (snd (chooseLevel s)) = m_balanced s"
  by (simp add: chooseLevel_def Let_def split: draw.splits)

lemma addLevel_balanced [simp]: "m_balanced (addLevel s) = m_balanced s"
  by (simp add: addLevel_def updateMinMax_def Let_def)

lemma removeLevel_balanced [simp]: "m_balanced (removeLevel s) = m_balanced s"
  by (simp add: removeLevel_def updateMinMax_def Let_def)

lemma grown_balanced [simp]: "m_balanced (grown s) = m_balanced s"
  by (simp add: grown_def)

text \<open>
  C8, amended: the failure branch of \<^verbatim>\<open>insertTopDown\<close> does not touch \<^verbatim>\<open>m_balanced\<close>.
  When the insert is refused the flag has the value it had before the call; when the
  element is inserted the flag is cleared.
\<close>

theorem failed_insert_keeps_flag:
  "(snd (fst (insertTopDown s key compare kv)) = False
      \<longrightarrow> m_balanced (snd (insertTopDown s key compare kv)) = m_balanced s)
   \<and> (snd (fst (insertTopDown s key compare kv)) = True
      \<longrightarrow> m_balanced (snd (insertTopDown s key compare kv)) = False)"
  by (simp add: insertTopDown_eq linked_def Let_def split: insert_out.splits)

text \<open>
  C8, as the claim states it: after an insert into a map that fails on an existing key,
  \<^verbatim>\<open>is_balanced()\<close> is false. It is not: the container with the one element \<open>(1, 10)\<close>
  is balanced, the insert of \<open>(1, 20)\<close> is refused, and the flag is still true.
\<close>

theorem failed_insert_keeps_flag_counterexample:
  "m_balanced example_one_balanced
   \<and> snd (fst (insert example_one_balanced (1, 20))) = False
   \<and> m_balanced (snd (insert example_one_balanced (1, 20))) = True"
  by code_simp

theorem failed_insert_keeps_flag_witness:
  "snd (fst (insertTopDown example_one_balanced 1 (<) (1, 20))) = False
   \<and> m_balanced (snd (insertTopDown example_one_balanced 1 (<) (1, 20)))
       = m_balanced example_one_balanced
   \<and> snd (fst (insertTopDown example_map 1 (<) (1, 10))) = True
   \<and> m_balanced (snd (insertTopDown example_map 1 (<) (1, 10))) = False"
proof -
  have a: "snd (fst (insertTopDown example_one_balanced 1 (<) (1, 20))) = False"
    by code_simp
  have b: "snd (fst (insertTopDown example_map 1 (<) (1, 10))) = True"
    by code_simp
  show ?thesis
    using a b failed_insert_keeps_flag [of example_one_balanced 1 "(<)" "(1, 20)"]
      failed_insert_keeps_flag [of example_map 1 "(<)" "(1, 10)"]
    by simp
qed

subsection \<open>The invariant of a container\<close>

definition strict_weak_order :: "('k \<Rightarrow> 'k \<Rightarrow> bool) \<Rightarrow> bool" where
  "strict_weak_order cmp \<longleftrightarrow>
     (\<forall>a. \<not> cmp a a) \<and> (\<forall>a b c. cmp a b \<longrightarrow> cmp b c \<longrightarrow> cmp a c) \<and>
     (\<forall>a b c. \<not> cmp a b \<longrightarrow> \<not> cmp b c \<longrightarrow> \<not> cmp a c)"

definition key_of :: "('k, 'v) Skiplist \<Rightarrow> nat \<Rightarrow> 'k" where
  "key_of s i = fst (pairs s i)"

definition equivalent :: "('k, 'v) Skiplist \<Rightarrow> 'k \<Rightarrow> 'k \<Rightarrow> bool" where
  "equivalent s a b \<longleftrightarrow> \<not> m_keyCompare s a b \<and> \<not> m_keyCompare s b a"

definition ordered :: "('k, 'v) Skiplist \<Rightarrow> nat list \<Rightarrow> bool" where
  "ordered s xs \<longleftrightarrow>
     sorted_wrt (\<lambda>i j. \<not> m_keyCompare s (key_of s j) (key_of s i)) xs \<and>
     (s_MULTIMAP s \<or> sorted_wrt (\<lambda>i j. m_keyCompare s (key_of s i) (key_of s j)) xs)"

fun nested :: "nat list list \<Rightarrow> bool" where
  "nested (xs # ys # ls) = (set ys \<subseteq> set xs \<and> nested (ys # ls))"
| "nested ls = True"

definition structure_ok :: "('k, 'v) Skiplist \<Rightarrow> bool" where
  "structure_ok s \<longleftrightarrow>
     m_levelCount s = int (length (m_lists s)) \<and>
     m_count s = length (list_of s 0) \<and>
     m_countMin s = (if m_levelCount s \<ge> 1 then 2 ^ nat (m_levelCount s - 1) else 0) \<and>
     m_countMax s = 2 ^ nat (m_levelCount s) - 1 \<and>
     m_countMin s \<le> m_count s \<and> m_count s \<le> m_countMax s \<and>
     distinct (list_of s 0) \<and> ordered s (list_of s 0) \<and>
     list_all (\<lambda>xs. xs = filter (\<lambda>i. i \<in> set xs) (list_of s 0)) (m_lists s) \<and>
     nested (m_lists s) \<and>
     list_all (\<lambda>i. i < next_pair s) (list_of s 0) \<and>
     m_begin s = (case list_of s 0 of [] \<Rightarrow> None | x # xs \<Rightarrow> Some (Node 0 (Some x))) \<and>
     m_tail s = (if list_of s 0 = [] then None else Some (Node 0 (Some (last (list_of s 0)))))"

definition invariant :: "('k, 'v) Skiplist \<Rightarrow> bool" where
  "invariant s \<longleftrightarrow> strict_weak_order (m_keyCompare s) \<and> structure_ok s"

definition example_seven :: "(nat, nat) Skiplist" where
  "example_seven = foldl (\<lambda>s k. snd (insert s (k, 10 * k))) example_map [2, 1, 3, 3, 4, 0, 5, 7]"

lemma swo_less: "strict_weak_order ((<) :: nat \<Rightarrow> nat \<Rightarrow> bool)"
  by (auto simp: strict_weak_order_def)

lemma insertTopDown_keyCompare [simp]: "m_keyCompare (snd (insertTopDown s k c kv)) = m_keyCompare s"
  by (simp add: insertTopDown_eq linked_def grown_def chooseLevel_def addLevel_def removeLevel_def updateMinMax_def Let_def split: insert_out.splits draw.splits)

lemma cmp7: "m_keyCompare example_seven = (<)" 
  by (simp add: example_seven_def example_map_def insert_def Skiplist_ctor_def)

definition node_ok :: "('k, 'v) Skiplist \<Rightarrow> Node \<Rightarrow> bool" where
  "node_ok s n \<longleftrightarrow>
     Level n < length (m_lists s) \<and>
     (\<forall>i. KeyValPair n = Some i \<longrightarrow> i \<in> set (m_lists s ! Level n))"

lemma after_split: "i \<notin> set bs \<Longrightarrow> after i (as @ i # bs) = bs"
  by (auto simp: after_def takeWhile_append)

lemma before_split: "i \<notin> set as \<Longrightarrow> before i (as @ i # bs) = as"
  by (auto simp: before_def takeWhile_append)

lemma set_after: "set (after i xs) \<subseteq> set xs"
  using set_takeWhileD [of _ "\<lambda>x. x \<noteq> i" "rev xs"] by (auto simp: after_def)

lemma nested_nth: "nested ls \<Longrightarrow> Suc l < length ls \<Longrightarrow> set (ls ! Suc l) \<subseteq> set (ls ! l)"
proof (induction ls arbitrary: l rule: nested.induct)
  case (1 xs ys ls)
  show ?case
  proof (cases l)
    case 0
    then show ?thesis using "1.prems" by simp
  next
    case (Suc m)
    then show ?thesis using "1.prems" "1.IH" [of m] by simp
  qed
qed simp_all

lemma Next_form:
  assumes "Next s n = Some n'"
  shows "\<exists>x. n' = Node (Level n) (Some x) \<and> x \<in> set (list_of s (Level n))"
proof (cases "KeyValPair n")
  case None
  then show ?thesis
    using assms by (auto simp: Next_def split: list.splits)
next
  case (Some i)
  then obtain x xs where a: "after i (list_of s (Level n)) = x # xs"
    and n': "n' = Node (Level n) (Some x)"
    using assms by (auto simp: Next_def split: list.splits if_splits)
  have "x \<in> set (after i (list_of s (Level n)))"
    using a by simp
  then show ?thesis
    using n' set_after by blast
qed

lemma list_of_nth: "l < length (m_lists s) \<Longrightarrow> list_of s l = m_lists s ! l"
  by (simp add: list_of_def)

lemma node_ok_Next:
  assumes "node_ok s n" "Next s n = Some n'"
  shows "node_ok s n' \<and> (\<exists>x. KeyValPair n' = Some x) \<and> Level n' = Level n"
  using Next_form [OF assms(2)] assms(1) by (auto simp: node_ok_def list_of_def)

lemma node_ok_Down:
  assumes "nested (m_lists s)" "node_ok s n" "Down s n = Some n'"
  shows "node_ok s n' \<and> KeyValPair n' = KeyValPair n \<and> Suc (Level n') = Level n"
proof -
  have l: "Level n \<noteq> 0" and n': "n' = Node (Level n - 1) (KeyValPair n)"
    using assms(3) by (auto simp: Down_def split: if_splits)
  then obtain m where m: "Level n = Suc m"
    by (cases "Level n") auto
  have "set (m_lists s ! Suc m) \<subseteq> set (m_lists s ! m)"
    using nested_nth [OF assms(1), of m] assms(2) m by (simp add: node_ok_def)
  then show ?thesis
    using assms(2) m n' by (auto simp: node_ok_def)
qed

definition rising :: "(nat \<Rightarrow> bool) \<Rightarrow> nat list \<Rightarrow> bool" where
  "rising P xs \<longleftrightarrow> sorted_wrt (\<lambda>i j. P i \<longrightarrow> P j) xs"

lemma rising_append:
  "rising P (as @ bs) \<Longrightarrow> rising P as \<and> rising P bs \<and> (\<forall>a\<in>set as. \<forall>b\<in>set bs. P a \<longrightarrow> P b)"
  unfolding rising_def sorted_wrt_append .

lemma rising_suffix: "rising P (as @ bs) \<Longrightarrow> rising P bs"
  unfolding rising_def sorted_wrt_append by blast

lemma rising_prefix: "rising P (as @ bs) \<Longrightarrow> rising P as"
  unfolding rising_def sorted_wrt_append by blast

lemma rising_Cons: "rising P (b # r) \<Longrightarrow> P b \<Longrightarrow> \<forall>y\<in>set r. P y"
  unfolding rising_def sorted_wrt.simps by blast

lemma rising_before: "rising P (as @ i # bs) \<Longrightarrow> \<not> P i \<Longrightarrow> \<forall>a\<in>set as. \<not> P a"
  using rising_append [of P as "i # bs"] by (metis list.set_intros(1))

lemma rising_after: "rising P (as @ i # bs) \<Longrightarrow> P i \<Longrightarrow> \<forall>b\<in>set bs. P b"
  using rising_append [of P as "i # bs"] rising_Cons [of P i bs] by blast

lemma find_append_none: "\<forall>a\<in>set as. \<not> P a \<Longrightarrow> List.find P (as @ bs) = List.find P bs"
  by (induction as) auto

definition find_node :: "(nat \<Rightarrow> bool) \<Rightarrow> nat list \<Rightarrow> Node option" where
  "find_node P xs = map_option (\<lambda>i. Node 0 (Some i)) (List.find P xs)"

lemma Next_real:
  assumes "distinct (as @ i # bs)" "list_of s l = as @ i # bs"
  shows "Next s (Node l (Some i)) = (case bs of [] \<Rightarrow> None | b # r \<Rightarrow> Some (Node l (Some b)))"
proof -
  have "after i (as @ i # bs) = bs"
    using assms(1) by (intro after_split) auto
  then show ?thesis
    using assms(2) by (simp add: Next_def split: list.splits)
qed

lemma bottom_step:
  assumes lvl: "Level head = 0" and ok: "node_ok s head"
    and dist: "distinct (list_of s 0)"
    and rise: "rising P (list_of s 0)"
    and low: "\<And>i. KeyValPair head = Some i \<Longrightarrow> \<not> P i"
    and nx: "Next s head = None \<or> P (the (KeyValPair (the (Next s head))))"
  shows "find_node P (list_of s 0) = Next s head"
proof (cases "KeyValPair head")
  case None
  then have hd: "head = Node 0 None"
    using lvl by (cases head) simp
  show ?thesis
  proof (cases "list_of s 0")
    case Nil
    then show ?thesis by (simp add: hd Next_def find_node_def)
  next
    case (Cons x xs)
    then have "Next s head = Some (Node 0 (Some x))"
      by (simp add: hd Next_def)
    then show ?thesis
      using nx Cons by (simp add: find_node_def)
  qed
next
  case (Some i)
  then have hd: "head = Node 0 (Some i)"
    using lvl by (cases head) simp
  have "i \<in> set (list_of s 0)"
    using ok Some lvl by (simp add: node_ok_def list_of_def)
  then obtain as bs where xs: "list_of s 0 = as @ i # bs"
    by (auto dest: split_list)
  have nP: "\<not> P i"
    using low Some by simp
  have "\<forall>a\<in>set as. \<not> P a"
    using rising_before [of P as i bs] rise nP by (simp add: xs)
  then have "\<forall>a\<in>set (as @ [i]). \<not> P a"
    using nP by simp
  then have f: "List.find P (list_of s 0) = List.find P bs"
    using find_append_none [of "as @ [i]" P bs] by (simp add: xs)
  have n: "Next s head = (case bs of [] \<Rightarrow> None | b # r \<Rightarrow> Some (Node 0 (Some b)))"
    unfolding hd using dist xs by (intro Next_real) simp_all
  show ?thesis
  proof (cases bs)
    case Nil
    then show ?thesis using f n by (simp add: find_node_def)
  next
    case (Cons b r)
    then show ?thesis using f n nx by (simp add: find_node_def)
  qed
qed

lemma findRecursive_COMP_find:
  assumes "h = Some head" "nested (m_lists s)" "distinct (list_of s 0)"
    "rising (\<lambda>i. compare key (key_of s i)) (list_of s 0)"
    "node_ok s head" "\<forall>i. KeyValPair head = Some i \<longrightarrow> \<not> compare key (key_of s i)"
  shows "findRecursive_COMP s h key compare
           = find_node (\<lambda>i. compare key (key_of s i)) (list_of s 0)"
  using assms
proof (induction s h key compare arbitrary: head rule: findRecursive_COMP.induct)
  case (1 s key compare)
  then show ?case by simp
next
  case (2 s head' key compare)
  then have eq: "head' = head" by simp
  note step = findRecursive_COMP.simps(2) [of s head key compare]
  note ok = \<open>node_ok s head\<close>
  let ?P = "\<lambda>i. compare key (key_of s i)"
  show ?case
  proof (cases "Next s head = None \<or> compare key (first s (the (Next s head)))")
    case True
    show ?thesis
    proof (cases "Down s head")
      case None
      then have lvl: "Level head = 0"
        by (simp add: Down_def split: if_splits)
      have nx: "Next s head = None \<or> ?P (the (KeyValPair (the (Next s head))))"
        using True by (auto simp: first_def key_of_def)
      have "find_node ?P (list_of s 0) = Next s head"
        using lvl ok "2.prems"(3,4,6) nx by (intro bottom_step) auto
      then show ?thesis
        using True None by (simp add: step eq Let_def)
    next
      case (Some d)
      have d: "node_ok s d \<and> KeyValPair d = KeyValPair head"
        using node_ok_Down [OF "2.prems"(2) ok Some] by simp
      have "findRecursive_COMP s (Down s head) key compare = find_node ?P (list_of s 0)"
        using "2.IH"(1) [of "Next s head" d] True Some d "2.prems" eq by simp
      then show ?thesis
        using True Some by (simp add: step eq Let_def)
    qed
  next
    case False
    then obtain n where n: "Next s head = Some n" and c: "\<not> compare key (first s n)"
      by auto
    obtain x where x: "node_ok s n" "KeyValPair n = Some x"
      using node_ok_Next [OF ok n] by auto
    have "findRecursive_COMP s (Next s head) key compare = find_node ?P (list_of s 0)"
      using "2.IH"(2) [of "Next s head" n] False n x c "2.prems" eq
      by (simp add: first_def key_of_def)
    then show ?thesis
      using n c by (simp add: step eq Let_def)
  qed
qed

lemma swo_le_less: "strict_weak_order cmp \<Longrightarrow> \<not> cmp b a \<Longrightarrow> cmp b c \<Longrightarrow> cmp a c"
  unfolding strict_weak_order_def by blast

lemma swo_less_le: "strict_weak_order cmp \<Longrightarrow> cmp a b \<Longrightarrow> \<not> cmp c b \<Longrightarrow> cmp a c"
  unfolding strict_weak_order_def by blast

lemma swo_le_le: "strict_weak_order cmp \<Longrightarrow> \<not> cmp b a \<Longrightarrow> \<not> cmp c b \<Longrightarrow> \<not> cmp c a"
  unfolding strict_weak_order_def by blast

lemma swo_asym: "strict_weak_order cmp \<Longrightarrow> cmp a b \<Longrightarrow> \<not> cmp b a"
  unfolding strict_weak_order_def by blast

lemma rising_upper:
  assumes "strict_weak_order (m_keyCompare s)"
    "sorted_wrt (\<lambda>i j. \<not> m_keyCompare s (key_of s j) (key_of s i)) xs"
  shows "rising (\<lambda>i. m_keyCompare s key (key_of s i)) xs"
  unfolding rising_def
proof (rule sorted_wrt_mono_rel [OF _ assms(2)])
  fix x y
  assume "\<not> m_keyCompare s (key_of s y) (key_of s x)"
  then show "m_keyCompare s key (key_of s x) \<longrightarrow> m_keyCompare s key (key_of s y)"
    using assms(1) unfolding strict_weak_order_def by blast
qed

lemma rising_lower:
  assumes "strict_weak_order (m_keyCompare s)"
    "sorted_wrt (\<lambda>i j. \<not> m_keyCompare s (key_of s j) (key_of s i)) xs"
  shows "rising (\<lambda>i. \<not> m_keyCompare s (key_of s i) key) xs"
  unfolding rising_def
proof (rule sorted_wrt_mono_rel [OF _ assms(2)])
  fix x y
  assume "\<not> m_keyCompare s (key_of s y) (key_of s x)"
  then show "\<not> m_keyCompare s (key_of s x) key \<longrightarrow> \<not> m_keyCompare s (key_of s y) key"
    using assms(1) unfolding strict_weak_order_def by blast
qed

lemma m_head_ok:
  "m_lists s \<noteq> [] \<Longrightarrow> m_head s = Some (Node (length (m_lists s) - 1) None)
     \<and> node_ok s (Node (length (m_lists s) - 1) None)"
  by (simp add: m_head_def node_ok_def)

lemma m_head_none: "m_lists s = [] \<Longrightarrow> m_head s = None \<and> list_of s 0 = []"
  by (simp add: m_head_def list_of_def)

lemma invariantD:
  assumes "invariant s"
  shows "strict_weak_order (m_keyCompare s)" "nested (m_lists s)" "distinct (list_of s 0)"
    "sorted_wrt (\<lambda>i j. \<not> m_keyCompare s (key_of s j) (key_of s i)) (list_of s 0)"
  using assms by (simp_all add: invariant_def structure_ok_def ordered_def)

lemma descent_from_head:
  assumes "nested (m_lists s)" "distinct (list_of s 0)"
    "rising (\<lambda>i. compare key (key_of s i)) (list_of s 0)"
  shows "findRecursive_COMP s (m_head s) key compare
           = find_node (\<lambda>i. compare key (key_of s i)) (list_of s 0)"
proof (cases "m_lists s = []")
  case True
  then show ?thesis
    using m_head_none [OF True] by (simp add: find_node_def findRecursive_COMP.simps(1))
next
  case False
  show ?thesis
    using m_head_ok [OF False] assms
    by (intro findRecursive_COMP_find [where head = "Node (length (m_lists s) - 1) None"]) auto
qed

text \<open>
  C2. \<^verbatim>\<open>upper_bound(k)\<close> is the first node of the lowest list whose key is greater than
  \<open>k\<close>, that is with \<^verbatim>\<open>cmp(k, key)\<close>, and \<^verbatim>\<open>end()\<close> when there is none; \<^verbatim>\<open>lower_bound(k)\<close>
  is the first node of the lowest list whose key is not less than \<open>k\<close>, and \<^verbatim>\<open>end()\<close>
  when there is none.
\<close>

theorem bounds_first_in_bottom_list:
  assumes "invariant s"
  shows "upper_bound s k
           = map_option (\<lambda>i. Node 0 (Some i))
               (List.find (\<lambda>i. m_keyCompare s k (fst (pairs s i))) (list_of s 0))
       \<and> lower_bound s k
           = map_option (\<lambda>i. Node 0 (Some i))
               (List.find (\<lambda>i. \<not> m_keyCompare s (fst (pairs s i)) k) (list_of s 0))"
proof -
  note inv = invariantD [OF assms]
  have "upper_bound s k = find_node (\<lambda>i. m_keyCompare s k (key_of s i)) (list_of s 0)"
    unfolding upper_bound_def
    by (rule descent_from_head [OF inv(2,3) rising_upper [OF inv(1,4)]])
  moreover have "lower_bound s k
      = find_node (\<lambda>i. \<not> m_keyCompare s (key_of s i) k) (list_of s 0)"
    unfolding lower_bound_def Let_def
    by (rule descent_from_head [OF inv(2,3) rising_lower [OF inv(1,4)]])
  ultimately show ?thesis
    by (simp add: find_node_def key_of_def)
qed

lemma invariant_example_seven: "invariant example_seven"
proof -
  have "structure_ok example_seven"
    by code_simp
  then show ?thesis
    by (simp add: invariant_def cmp7 swo_less)
qed

theorem bounds_first_in_bottom_list_witness:
  "upper_bound example_seven 3 = Some (Node 0 (Some 3))
   \<and> fst (pairs example_seven 3) = 4
   \<and> lower_bound example_seven 6 = Some (Node 0 (Some 6))
   \<and> fst (pairs example_seven 6) = 7
   \<and> upper_bound example_seven 7 = None"
proof -
  have a: "List.find (\<lambda>i. m_keyCompare example_seven 3 (fst (pairs example_seven i)))
             (list_of example_seven 0) = Some 3"
    by code_simp
  have b: "List.find (\<lambda>i. \<not> m_keyCompare example_seven (fst (pairs example_seven i)) 6)
             (list_of example_seven 0) = Some 6"
    by code_simp
  have c: "List.find (\<lambda>i. m_keyCompare example_seven 7 (fst (pairs example_seven i)))
             (list_of example_seven 0) = None"
    by code_simp
  have d: "fst (pairs example_seven 3) = 4 \<and> fst (pairs example_seven 6) = 7"
    by code_simp
  show ?thesis
    using bounds_first_in_bottom_list [OF invariant_example_seven, of 3]
      bounds_first_in_bottom_list [OF invariant_example_seven, of 6]
      bounds_first_in_bottom_list [OF invariant_example_seven, of 7] a b c d
    by simp
qed

lemma nested_bottom: "nested ls \<Longrightarrow> l < length ls \<Longrightarrow> set (ls ! l) \<subseteq> set (ls ! 0)"
proof (induction l)
  case 0
  then show ?case by simp
next
  case (Suc l)
  then show ?case
    using nested_nth [of ls l] by auto
qed

lemma node_ok_bottom:
  assumes "nested (m_lists s)" "node_ok s n" "KeyValPair n = Some x"
  shows "x \<in> set (list_of s 0)"
  using nested_bottom [OF assms(1), of "Level n"] assms(2,3)
  by (auto simp: node_ok_def list_of_def)

lemma findRecursive_sound:
  assumes "h = Some head" "nested (m_lists s)" "node_ok s head"
    "findRecursive s h key = Some n"
  shows "\<exists>x. KeyValPair n = Some x \<and> node_ok s n \<and> equivalent s (key_of s x) key"
  using assms
proof (induction s h key arbitrary: head rule: findRecursive.induct)
  case (1 s key)
  then show ?case by simp
next
  case (2 s head' key)
  then have eq: "head' = head" by simp
  note step = findRecursive.simps(2) [of s head key]
  note ok = \<open>node_ok s head\<close>
  show ?case
  proof (cases "Next s head = None \<or> m_keyCompare s key (first s (the (Next s head)))")
    case True
    then have r: "findRecursive s (Down s head) key = Some n"
      using "2.prems"(4) by (simp add: step eq Let_def)
    then obtain d where d: "Down s head = Some d"
      by (cases "Down s head") (auto simp: findRecursive.simps(1))
    have "node_ok s d"
      using node_ok_Down [OF "2.prems"(2) ok d] by simp
    then show ?thesis
      using "2.IH"(1) [of "Next s head" d] True d r "2.prems"(2) eq by simp
  next
    case False
    then obtain nx where nx: "Next s head = Some nx"
      and c: "\<not> m_keyCompare s key (first s nx)"
      by auto
    obtain x where x: "node_ok s nx" "KeyValPair nx = Some x"
      using node_ok_Next [OF ok nx] by auto
    show ?thesis
    proof (cases "m_keyCompare s (first s nx) key")
      case True
      then have r: "findRecursive s (Next s head) key = Some n"
        using "2.prems"(4) nx c by (simp add: step eq Let_def)
      show ?thesis
        using "2.IH"(2) [of "Next s head" nx] False nx True r x "2.prems"(2) eq by simp
    next
      case False
      then have "n = nx"
        using "2.prems"(4) nx c by (simp add: step eq Let_def)
      then show ?thesis
        using x c False by (simp add: equivalent_def first_def key_of_def)
    qed
  qed
qed

lemma bottom_gap:
  assumes swo: "strict_weak_order (m_keyCompare s)"
    and lvl: "Level head = 0" and ok: "node_ok s head"
    and dist: "distinct (list_of s 0)"
    and sorted: "sorted_wrt (\<lambda>i j. \<not> m_keyCompare s (key_of s j) (key_of s i)) (list_of s 0)"
    and low: "\<And>i. KeyValPair head = Some i \<Longrightarrow> m_keyCompare s (key_of s i) key"
    and nx: "Next s head = None \<or> m_keyCompare s key (first s (the (Next s head)))"
  shows "\<forall>x\<in>set (list_of s 0). \<not> equivalent s (key_of s x) key"
proof -
  let ?P = "\<lambda>i. m_keyCompare s key (key_of s i)"
  have rise: "rising ?P (list_of s 0)"
    by (rule rising_upper [OF swo sorted])
  have low': "\<And>i. KeyValPair head = Some i \<Longrightarrow> \<not> ?P i"
    using low swo_asym [OF swo] by blast
  have nx': "Next s head = None \<or> ?P (the (KeyValPair (the (Next s head))))"
    using nx by (auto simp: first_def key_of_def)
  have f: "find_node ?P (list_of s 0) = Next s head"
    using lvl ok dist rise low' nx' by (rule bottom_step)
  show ?thesis
  proof (cases "KeyValPair head")
    case None
    then have hd: "head = Node 0 None"
      using lvl by (cases head) simp
    show ?thesis
    proof (cases "list_of s 0")
      case Nil
      then show ?thesis by simp
    next
      case (Cons y ys)
      then have "Next s head = Some (Node 0 (Some y))"
        by (simp add: hd Next_def)
      then have y: "?P y"
        using nx' by simp
      have "\<forall>x\<in>set ys. ?P x"
        using rising_Cons [of ?P y ys] rise y by (simp add: Cons)
      then show ?thesis
        using y Cons by (auto simp: equivalent_def)
    qed
  next
    case (Some i)
    then have hd: "head = Node 0 (Some i)"
      using lvl by (cases head) simp
    have "i \<in> set (list_of s 0)"
      using ok Some lvl by (simp add: node_ok_def list_of_def)
    then obtain as bs where xs: "list_of s 0 = as @ i # bs"
      by (auto dest: split_list)
    have li: "m_keyCompare s (key_of s i) key"
      using low Some by simp
    have "\<forall>a\<in>set as. \<not> m_keyCompare s (key_of s i) (key_of s a)"
      using sorted by (auto simp: xs sorted_wrt_append)
    then have las: "\<forall>a\<in>set as. m_keyCompare s (key_of s a) key"
      using swo_le_less [OF swo _ li] by blast
    have n: "Next s head = (case bs of [] \<Rightarrow> None | b # r \<Rightarrow> Some (Node 0 (Some b)))"
      unfolding hd using dist xs by (intro Next_real) simp_all
    have "\<forall>b\<in>set bs. ?P b"
    proof (cases bs)
      case Nil
      then show ?thesis by simp
    next
      case (Cons b r)
      then have b: "?P b"
        using n nx' by simp
      have "rising ?P (as @ i # b # r)"
        using rise by (simp add: xs Cons)
      then have "rising ?P (b # r)"
        using rising_suffix [of ?P "as @ [i]" "b # r"] by simp
      then show ?thesis
        using rising_Cons [of ?P b r] b Cons by simp
    qed
    then show ?thesis
      using las li by (auto simp: xs equivalent_def)
  qed
qed

lemma findRecursive_complete:
  assumes "h = Some head" "strict_weak_order (m_keyCompare s)" "nested (m_lists s)"
    "distinct (list_of s 0)"
    "sorted_wrt (\<lambda>i j. \<not> m_keyCompare s (key_of s j) (key_of s i)) (list_of s 0)"
    "node_ok s head" "\<forall>i. KeyValPair head = Some i \<longrightarrow> m_keyCompare s (key_of s i) key"
    "findRecursive s h key = None"
  shows "\<forall>x\<in>set (list_of s 0). \<not> equivalent s (key_of s x) key"
  using assms
proof (induction s h key arbitrary: head rule: findRecursive.induct)
  case (1 s key)
  then show ?case by simp
next
  case (2 s head' key)
  then have eq: "head' = head" by simp
  note step = findRecursive.simps(2) [of s head key]
  note ok = \<open>node_ok s head\<close>
  show ?case
  proof (cases "Next s head = None \<or> m_keyCompare s key (first s (the (Next s head)))")
    case True
    then have r: "findRecursive s (Down s head) key = None"
      using "2.prems"(8) by (simp add: step eq Let_def)
    show ?thesis
    proof (cases "Down s head")
      case None
      then have lvl: "Level head = 0"
        by (simp add: Down_def split: if_splits)
      show ?thesis
        using "2.prems"(2) lvl ok "2.prems"(4,5) _ True
        by (rule bottom_gap) (use "2.prems"(7) in simp)
    next
      case (Some d)
      have d: "node_ok s d \<and> KeyValPair d = KeyValPair head"
        using node_ok_Down [OF "2.prems"(3) ok Some] by simp
      show ?thesis
        using "2.IH"(1) [of "Next s head" d] True Some d r "2.prems" eq by simp
    qed
  next
    case False
    then obtain nx where nx: "Next s head = Some nx"
      and c: "\<not> m_keyCompare s key (first s nx)"
      by auto
    obtain x where x: "node_ok s nx" "KeyValPair nx = Some x"
      using node_ok_Next [OF ok nx] by auto
    have lt: "m_keyCompare s (first s nx) key"
      using "2.prems"(8) nx c by (auto simp: step eq Let_def split: if_splits)
    then have r: "findRecursive s (Next s head) key = None"
      using "2.prems"(8) nx c by (simp add: step eq Let_def)
    show ?thesis
      using "2.IH"(2) [of "Next s head" nx] False nx lt r x "2.prems" eq
      by (simp add: first_def key_of_def)
  qed
qed

lemma findRecursive_head:
  assumes "invariant s"
  shows "(findRecursive s (m_head s) key = None
            \<longrightarrow> (\<forall>x\<in>set (list_of s 0). \<not> equivalent s (key_of s x) key))
       \<and> (\<forall>n. findRecursive s (m_head s) key = Some n
            \<longrightarrow> (\<exists>x. KeyValPair n = Some x \<and> node_ok s n \<and> x \<in> set (list_of s 0)
                  \<and> equivalent s (key_of s x) key))"
proof (cases "m_lists s = []")
  case True
  then show ?thesis
    using m_head_none [OF True] by (simp add: findRecursive.simps(1))
next
  case False
  note inv = invariantD [OF assms]
  note h = m_head_ok [OF False]
  have a: "findRecursive s (m_head s) key = None
      \<Longrightarrow> \<forall>x\<in>set (list_of s 0). \<not> equivalent s (key_of s x) key"
    using h inv
    by (intro findRecursive_complete [where head = "Node (length (m_lists s) - 1) None"]) auto
  have b: "\<exists>x. KeyValPair n = Some x \<and> node_ok s n \<and> x \<in> set (list_of s 0)
                  \<and> equivalent s (key_of s x) key"
    if "findRecursive s (m_head s) key = Some n" for n
  proof -
    have "\<exists>x. KeyValPair n = Some x \<and> node_ok s n \<and> equivalent s (key_of s x) key"
      using h inv(2) that
      by (intro findRecursive_sound [where head = "Node (length (m_lists s) - 1) None"]) auto
    then obtain x where "KeyValPair n = Some x \<and> node_ok s n \<and> equivalent s (key_of s x) key"
      by blast
    then show ?thesis
      using node_ok_bottom [OF inv(2)] by blast
  qed
  show ?thesis
    using a b by blast
qed

text \<open>
  C9. \<^verbatim>\<open>at(k)\<close> throws \<^verbatim>\<open>std::out_of_range\<close> exactly when no element of the container
  has a key equivalent to \<open>k\<close>; otherwise it returns the mapped value of an element with
  such a key. \<^verbatim>\<open>contains(k)\<close> is true exactly when such an element is present. Both are
  functions of the container alone and return no new container: they modify nothing.
\<close>

theorem at_contains_equivalent_key:
  assumes "invariant s"
  shows "(contains s k \<longleftrightarrow> (\<exists>i\<in>set (list_of s 0). equivalent s (fst (pairs s i)) k))
       \<and> (at s k = Inl (out_of_range ''Invalid Skiplist<KEY, VAL> key.'')
            \<longleftrightarrow> \<not> (\<exists>i\<in>set (list_of s 0). equivalent s (fst (pairs s i)) k))
       \<and> ((\<exists>i\<in>set (list_of s 0). equivalent s (fst (pairs s i)) k)
            \<longrightarrow> (\<exists>i\<in>set (list_of s 0). equivalent s (fst (pairs s i)) k
                  \<and> at s k = Inr (snd (pairs s i))))"
proof (cases "findRecursive s (m_head s) k")
  case None
  then have "\<forall>x\<in>set (list_of s 0). \<not> equivalent s (key_of s x) k"
    using findRecursive_head [OF assms, of k] by simp
  then show ?thesis
    using None by (simp add: contains_def at_def key_of_def)
next
  case (Some n)
  then obtain x where x: "KeyValPair n = Some x" "x \<in> set (list_of s 0)"
    "equivalent s (key_of s x) k"
    using findRecursive_head [OF assms, of k] by blast
  have "at s k = Inr (snd (pairs s x))"
    using Some x(1) by (simp add: at_def second_def)
  then show ?thesis
    using Some x by (auto simp: contains_def key_of_def)
qed

theorem at_contains_equivalent_key_witness:
  "contains example_seven 4 \<and> at example_seven 4 = Inr 40
   \<and> \<not> contains example_seven 6
   \<and> at example_seven 6 = Inl (out_of_range ''Invalid Skiplist<KEY, VAL> key.'')"
proof -
  have a: "\<exists>i\<in>set (list_of example_seven 0). equivalent example_seven (fst (pairs example_seven i)) 4"
    by code_simp
  have b: "\<not> (\<exists>i\<in>set (list_of example_seven 0). equivalent example_seven (fst (pairs example_seven i)) 6)"
    by code_simp
  have c: "\<forall>i\<in>set (list_of example_seven 0). equivalent example_seven (fst (pairs example_seven i)) 4
             \<longrightarrow> snd (pairs example_seven i) = 40"
    by code_simp
  show ?thesis
    using at_contains_equivalent_key [OF invariant_example_seven, of 4]
      at_contains_equivalent_key [OF invariant_example_seven, of 6] a b c
    by auto
qed

section \<open>Erase by key\<close>

text \<open>Taking a node out of its list (\<^verbatim>\<open>node->Prev->Next = node->Next;
  node->Next->Prev = node->Prev; delete node\<close>).\<close>

definition unlink :: "('k, 'v) Skiplist \<Rightarrow> Node \<Rightarrow> ('k, 'v) Skiplist" where
  "unlink s n =
     (case KeyValPair n of
        None \<Rightarrow> s
      | Some i \<Rightarrow> s\<lparr> m_lists := (m_lists s)[Level n := remove1 i (list_of s (Level n))] \<rparr>)"

text \<open>\<^verbatim>\<open>size_type\<close> is unsigned: a subtraction below zero wraps around \<open>2\<^sup>6\<^sup>4\<close>.\<close>

definition size_sub :: "nat \<Rightarrow> nat \<Rightarrow> nat" where
  "size_sub a b = (if b \<le> a then a - b else a + 2 ^ 64 - b)"

lemma Prev_form:
  assumes "Prev s n = Some n'"
  shows "Level n' = Level n \<and>
         (\<forall>j. KeyValPair n' = Some j \<longrightarrow> j \<in> set (list_of s (Level n)))"
proof (cases "KeyValPair n")
  case None
  then show ?thesis using assms by (simp add: Prev_def)
next
  case (Some i)
  show ?thesis
  proof (cases "before i (list_of s (Level n)) = []")
    case True
    then show ?thesis
      using assms Some by (auto simp: Prev_def split: if_splits)
  next
    case False
    then have n': "n' = Node (Level n) (Some (last (before i (list_of s (Level n)))))"
      using assms Some by (auto simp: Prev_def split: if_splits)
    have "last (before i (list_of s (Level n))) \<in> set (before i (list_of s (Level n)))"
      using False by simp
    then have "last (before i (list_of s (Level n))) \<in> set (list_of s (Level n))"
      unfolding before_def by (rule set_takeWhileD [THEN conjunct1])
    then show ?thesis
      using n' by simp
  qed
qed

lemma length_unlink:
  assumes "KeyValPair t = Some j" "j \<in> set (list_of s (Level t))"
  shows "length (list_of (unlink s t) (Level t)) < length (list_of s (Level t))"
proof -
  have l: "Level t < length (m_lists s)"
    using assms(2) by (auto simp: list_of_def split: if_splits)
  then have "list_of (unlink s t) (Level t) = remove1 j (list_of s (Level t))"
    using assms(1) by (simp add: unlink_def list_of_def)
  then show ?thesis
    using assms(2) by (simp add: length_remove1) (cases "list_of s (Level t)"; simp)
qed

text \<open>The two loops of \<^verbatim>\<open>eraseKeyRecursive\<close> that delete the nodes with an equivalent
  key to the left and to the right of \<^verbatim>\<open>toRemove\<close>; \<^verbatim>\<open>kvPair\<close> is the \<^verbatim>\<open>Pair\<close> of
  \<^verbatim>\<open>toRemove\<close>, \<^verbatim>\<open>m_pairCompare\<close> compares the keys of two pairs with \<^verbatim>\<open>m_keyCompare\<close>.\<close>

function eraseKey_left ::
  "('k, 'v) Skiplist \<Rightarrow> Node \<Rightarrow> Node option \<Rightarrow> nat \<Rightarrow> ('k, 'v) Skiplist \<times> nat" where
  "eraseKey_left s toRemove down numRemoved =
     (let temp = Prev s toRemove in
      if temp \<noteq> None \<and> Prev s (the temp) \<noteq> None \<and>
         \<not> m_keyCompare s (first s (the temp)) (first s toRemove)
      then eraseKey_left (unlink s (the temp)) toRemove down
             (if down = None then numRemoved + 1 else numRemoved)
      else (s, numRemoved))"
  by pat_completeness auto
termination
proof (relation "measure (\<lambda>(s, n, d, r). length (list_of s (Level n)))", goal_cases)
  case 1
  then show ?case by simp
next
  case (2 s toRemove down numRemoved temp)
  then obtain t where t: "Prev s toRemove = Some t" and p: "Prev s t \<noteq> None"
    by auto
  have lv: "Level t = Level toRemove"
    using Prev_form [OF t] by simp
  obtain j where j: "KeyValPair t = Some j"
    using p by (cases "KeyValPair t") (auto simp: Prev_def)
  then have "j \<in> set (list_of s (Level t))"
    using Prev_form [OF t] lv by simp
  from length_unlink [OF j this] show ?case
    using 2 t lv by simp
qed

declare eraseKey_left.simps [simp del]

function eraseKey_right ::
  "('k, 'v) Skiplist \<Rightarrow> Node \<Rightarrow> Node option \<Rightarrow> nat \<Rightarrow> ('k, 'v) Skiplist \<times> nat" where
  "eraseKey_right s toRemove down numRemoved =
     (let temp = Next s toRemove in
      if temp \<noteq> None \<and> \<not> m_keyCompare s (first s toRemove) (first s (the temp))
      then eraseKey_right (unlink s (the temp)) toRemove down
             (if down = None then numRemoved + 1 else numRemoved)
      else (s, numRemoved))"
  by pat_completeness auto
termination
proof (relation "measure (\<lambda>(s, n, d, r). length (list_of s (Level n)))", goal_cases)
  case 1
  then show ?case by simp
next
  case (2 s toRemove down numRemoved temp)
  then obtain t where t: "Next s toRemove = Some t"
    by auto
  obtain j where j: "t = Node (Level toRemove) (Some j)" "j \<in> set (list_of s (Level toRemove))"
    using Next_form [OF t] by auto
  have "length (list_of (unlink s t) (Level t)) < length (list_of s (Level t))"
    using j by (intro length_unlink [of t j]) simp_all
  then show ?case
    using 2 t j by simp
qed

declare eraseKey_right.simps [simp del]

function eraseKeyRecursive ::
  "('k, 'v) Skiplist \<Rightarrow> Node option \<Rightarrow> nat \<times> ('k, 'v) Skiplist" where
  "eraseKeyRecursive s None = (0, s)"
| "eraseKeyRecursive s (Some toRemove) =
     (let down = Down s toRemove;
          (s1, n1) = eraseKey_left s toRemove down 0;
          (s2, n2) = eraseKey_right s1 toRemove down n1;
          prev = Prev s2 toRemove;
          next = Next s2 toRemove;
          s3 = unlink s2 toRemove;
          s4 = (if down = None \<and> Prev s2 (the prev) = None then s3\<lparr> m_begin := next \<rparr> else s3);
          s5 = (if down = None \<and> next = None then s4\<lparr> m_tail := prev \<rparr> else s4);
          numRemoved = (if down = None then n2 + 1 else n2)
      in if down \<noteq> None then eraseKeyRecursive s5 down else (numRemoved, s5))"
  by pat_completeness auto
termination
  by (relation "measure (\<lambda>(s, n). case n of None \<Rightarrow> 0 | Some t \<Rightarrow> Suc (Level t))")
     (auto simp: Down_def split: if_splits)

declare eraseKeyRecursive.simps [simp del]

text \<open>\<^verbatim>\<open>while (m_count < m_countMin) removeLevel();\<close>\<close>

function removeLevels :: "('k, 'v) Skiplist \<Rightarrow> ('k, 'v) Skiplist" where
  "removeLevels s = (if m_count s < m_countMin s then removeLevels (removeLevel s) else s)"
  by pat_completeness auto
termination
  by (relation "measure (\<lambda>s. if m_count s < m_countMin s then Suc (nat (m_levelCount s)) else 0)")
     (auto simp: removeLevel_def updateMinMax_def Let_def)

declare removeLevels.simps [simp del]

text \<open>\<^verbatim>\<open>erase(const KEY&)\<close>\<close>

definition erase :: "('k, 'v) Skiplist \<Rightarrow> 'k \<Rightarrow> nat \<times> ('k, 'v) Skiplist" where
  "erase s key =
     (let toRemove = findRecursive s (m_head s) key in
      if toRemove = None then (0, s)
      else (let (numRemoved, s1) = eraseKeyRecursive s toRemove;
                s2 = s1\<lparr> m_count := size_sub (m_count s1) numRemoved \<rparr>;
                s3 = (if m_count s2 = 0 then s2\<lparr> m_tail := None \<rparr> else s2);
                s4 = s3\<lparr> m_balanced := False \<rparr>
            in (numRemoved, removeLevels s4)))"

lemma rising_takeWhile:
  "rising P xs \<Longrightarrow> takeWhile (\<lambda>x. \<not> P x) xs = filter (\<lambda>x. \<not> P x) xs
     \<and> dropWhile (\<lambda>x. \<not> P x) xs = filter P xs"
proof (induction xs)
  case Nil
  then show ?case by simp
next
  case (Cons x xs)
  have r: "rising P xs"
    using rising_suffix [of P "[x]" xs] Cons.prems by simp
  show ?case
  proof (cases "P x")
    case True
    then have "\<forall>y\<in>set xs. P y"
      using rising_Cons [OF Cons.prems] by simp
    then have "filter (\<lambda>x. \<not> P x) xs = [] \<and> filter P xs = xs"
      by (simp add: filter_empty_conv filter_id_conv)
    then show ?thesis
      using True by simp
  next
    case False
    then show ?thesis
      using Cons.IH [OF r] by simp
  qed
qed

lemma Prev_real:
  assumes "distinct (as @ x # bs)" "list_of s l = as @ x # bs"
  shows "Prev s (Node l (Some x)) = Some (Node l (if as = [] then None else Some (last as)))"
proof -
  have "before x (as @ x # bs) = as"
    using assms(1) by (intro before_split) auto
  then show ?thesis
    using assms(2) by (simp add: Prev_def)
qed

lemma list_of_update:
  "list_of (s\<lparr> m_lists := (m_lists s)[l := ys] \<rparr>) l' =
     (if l' = l \<and> l < length (m_lists s) then ys else list_of s l')"
  by (simp add: list_of_def)

lemma unlink_real:
  assumes "list_of s l = as @ a # bs" "a \<notin> set as"
  shows "unlink s (Node l (Some a)) = s\<lparr> m_lists := (m_lists s)[l := as @ bs] \<rparr>"
  using assms by (simp add: unlink_def remove1_append)

lemma lists_update_id:
  assumes "list_of s l = xs" "l < length (m_lists s)"
  shows "s\<lparr> m_lists := (m_lists s)[l := xs] \<rparr> = s"
proof -
  have "(m_lists s)[l := xs] = m_lists s"
    using assms by (auto simp: list_of_def)
  then show ?thesis by simp
qed

lemma Prev_dummy [simp]: "Prev s (Node l None) = None"
  by (simp add: Prev_def)

lemma eraseKey_left_run:
  assumes "list_of s l = as @ x # bs" "distinct (as @ x # bs)" "l < length (m_lists s)"
  shows "eraseKey_left s (Node l (Some x)) down r =
           (s\<lparr> m_lists := (m_lists s)
                 [l := rev (dropWhile (\<lambda>e. \<not> m_keyCompare s (key_of s e) (key_of s x)) (rev as))
                       @ x # bs] \<rparr>,
            r + (if down = None
                 then length (takeWhile (\<lambda>e. \<not> m_keyCompare s (key_of s e) (key_of s x)) (rev as))
                 else 0))"
  using assms
proof (induction as arbitrary: s r rule: rev_induct)
  case Nil
  have p: "Prev s (Node l (Some x)) = Some (Node l None)"
    using Prev_real [of "[]" x bs s l] Nil by simp
  have "eraseKey_left s (Node l (Some x)) down r = (s, r)"
    by (subst eraseKey_left.simps) (simp add: p)
  then show ?case
    using Nil lists_update_id [of s l "x # bs"] by simp
next
  case (snoc a as)
  let ?Q = "\<lambda>e. \<not> m_keyCompare s (key_of s e) (key_of s x)"
  have p: "Prev s (Node l (Some x)) = Some (Node l (Some a))"
    using Prev_real [of "as @ [a]" x bs s l] snoc.prems by simp
  have a_in: "a \<in> set (list_of s l)"
    using snoc.prems by simp
  have pa: "Prev s (Node l (Some a)) \<noteq> None"
    using a_in by (simp add: Prev_def)
  show ?case
  proof (cases "?Q a")
    case True
    let ?s' = "s\<lparr> m_lists := (m_lists s)[l := as @ x # bs] \<rparr>"
    have u: "unlink s (Node l (Some a)) = ?s'"
      using unlink_real [of s l as a "x # bs"] snoc.prems by simp
    have l': "list_of ?s' l = as @ x # bs"
      using snoc.prems(3) by (simp add: list_of_update)
    have step: "eraseKey_left s (Node l (Some x)) down r =
        eraseKey_left ?s' (Node l (Some x)) down (if down = None then r + 1 else r)"
      using True pa by (subst eraseKey_left.simps) (simp add: p u first_def key_of_def)
    have "eraseKey_left ?s' (Node l (Some x)) down (if down = None then r + 1 else r) =
        (?s'\<lparr> m_lists := (m_lists ?s')
                 [l := rev (dropWhile (\<lambda>e. \<not> m_keyCompare ?s' (key_of ?s' e) (key_of ?s' x)) (rev as))
                       @ x # bs] \<rparr>,
            (if down = None then r + 1 else r) + (if down = None
                 then length (takeWhile (\<lambda>e. \<not> m_keyCompare ?s' (key_of ?s' e) (key_of ?s' x)) (rev as))
                 else 0))"
      using snoc.prems by (intro snoc.IH l') simp_all
    then show ?thesis
      using True step by (simp add: key_of_def)
  next
    case False
    have "eraseKey_left s (Node l (Some x)) down r = (s, r)"
      using False by (subst eraseKey_left.simps) (simp add: p first_def key_of_def)
    then show ?thesis
      using False snoc.prems lists_update_id [of s l "(as @ [a]) @ x # bs"] by simp
  qed
qed

lemma eraseKey_right_run:
  assumes "list_of s l = as @ x # bs" "distinct (as @ x # bs)" "l < length (m_lists s)"
  shows "eraseKey_right s (Node l (Some x)) down r =
           (s\<lparr> m_lists := (m_lists s)
                 [l := as @ x # dropWhile (\<lambda>e. \<not> m_keyCompare s (key_of s x) (key_of s e)) bs] \<rparr>,
            r + (if down = None
                 then length (takeWhile (\<lambda>e. \<not> m_keyCompare s (key_of s x) (key_of s e)) bs)
                 else 0))"
  using assms
proof (induction bs arbitrary: s r)
  case Nil
  have p: "Next s (Node l (Some x)) = None"
    using Next_real [of as x "[]" s l] Nil by simp
  have "eraseKey_right s (Node l (Some x)) down r = (s, r)"
    by (subst eraseKey_right.simps) (simp add: p)
  then show ?case
    using Nil lists_update_id [of s l "as @ [x]"] by simp
next
  case (Cons b bs)
  let ?Q = "\<lambda>e. \<not> m_keyCompare s (key_of s x) (key_of s e)"
  have p: "Next s (Node l (Some x)) = Some (Node l (Some b))"
    using Next_real [of as x "b # bs" s l] Cons.prems by simp
  show ?case
  proof (cases "?Q b")
    case True
    let ?s' = "s\<lparr> m_lists := (m_lists s)[l := as @ x # bs] \<rparr>"
    have u: "unlink s (Node l (Some b)) = ?s'"
      using unlink_real [of s l "as @ [x]" b bs] Cons.prems by simp
    have l': "list_of ?s' l = as @ x # bs"
      using Cons.prems(3) by (simp add: list_of_update)
    have step: "eraseKey_right s (Node l (Some x)) down r =
        eraseKey_right ?s' (Node l (Some x)) down (if down = None then r + 1 else r)"
      using True by (subst eraseKey_right.simps) (simp add: p u first_def key_of_def)
    have "eraseKey_right ?s' (Node l (Some x)) down (if down = None then r + 1 else r) =
        (?s'\<lparr> m_lists := (m_lists ?s')
                 [l := as @ x # dropWhile (\<lambda>e. \<not> m_keyCompare ?s' (key_of ?s' x) (key_of ?s' e)) bs] \<rparr>,
            (if down = None then r + 1 else r) + (if down = None
                 then length (takeWhile (\<lambda>e. \<not> m_keyCompare ?s' (key_of ?s' x) (key_of ?s' e)) bs)
                 else 0))"
      using Cons.prems by (intro Cons.IH l') simp_all
    then show ?thesis
      using True step by (simp add: key_of_def)
  next
    case False
    have "eraseKey_right s (Node l (Some x)) down r = (s, r)"
      using False by (subst eraseKey_right.simps) (simp add: p first_def key_of_def)
    then show ?thesis
      using False Cons.prems lists_update_id [of s l "as @ x # b # bs"] by simp
  qed
qed

lemma set_kept_left: "set (rev (dropWhile Q (rev as))) \<subseteq> set as"
  using set_dropWhileD [of _ Q "rev as"] by auto

lemma set_kept_right: "set (dropWhile Q bs) \<subseteq> set bs"
  using set_dropWhileD [of _ Q bs] by auto

lemma distinct_kept:
  assumes "distinct (as @ x # bs)"
  shows "distinct (rev (dropWhile Q (rev as)) @ x # bs)"
    and "distinct (rev (dropWhile Q (rev as)) @ x # dropWhile Q' bs)"
    and "x \<notin> set (rev (dropWhile Q (rev as)))"
proof -
  let ?A = "rev (dropWhile Q (rev as))"
  have a: "set ?A \<subseteq> set as" by (rule set_kept_left)
  have b: "set (dropWhile Q' bs) \<subseteq> set bs" by (rule set_kept_right)
  have da: "distinct ?A"
    using assms by (simp add: distinct_dropWhile)
  have db: "distinct (dropWhile Q' bs)"
    using assms by (simp add: distinct_dropWhile)
  show "distinct (?A @ x # bs)"
    using assms a da by auto
  show "distinct (?A @ x # dropWhile Q' bs)"
    using assms a b da db by auto
  show "x \<notin> set ?A"
    using assms a by auto
qed

lemma eraseKeyRecursive_level:
  fixes s :: "('k, 'v) Skiplist"
  assumes xs: "list_of s l = as @ x # bs" and dist: "distinct (as @ x # bs)"
    and l: "l < length (m_lists s)"
  defines "QL \<equiv> \<lambda>e. \<not> m_keyCompare s (key_of s e) (key_of s x)"
    and "QR \<equiv> \<lambda>e. \<not> m_keyCompare s (key_of s x) (key_of s e)"
  defines "A \<equiv> rev (dropWhile QL (rev as))" and "B \<equiv> dropWhile QR bs"
  defines "s5 \<equiv> s\<lparr> m_lists := (m_lists s)[l := A @ B],
                     m_begin := (if l = 0 \<and> A = []
                                 then (case B of [] \<Rightarrow> None | b # r \<Rightarrow> Some (Node 0 (Some b)))
                                 else m_begin s),
                     m_tail := (if l = 0 \<and> B = []
                                then Some (Node 0 (if A = [] then None else Some (last A)))
                                else m_tail s) \<rparr>"
  shows "eraseKeyRecursive s (Some (Node l (Some x))) =
           (if l = 0
            then (length (takeWhile QL (rev as)) + length (takeWhile QR bs) + 1, s5)
            else eraseKeyRecursive s5 (Some (Node (l - 1) (Some x))))"
proof -
  let ?n = "Node l (Some x)"
  let ?down = "Down s ?n"
  let ?s1 = "s\<lparr> m_lists := (m_lists s)[l := A @ x # bs] \<rparr>"
  let ?s2 = "s\<lparr> m_lists := (m_lists s)[l := A @ x # B] \<rparr>"
  let ?s3 = "s\<lparr> m_lists := (m_lists s)[l := A @ B] \<rparr>"
  have e1: "eraseKey_left s ?n d 0 =
      (?s1, if d = None then length (takeWhile QL (rev as)) else 0)" for d
    using eraseKey_left_run [OF xs dist l, of d 0] by (simp add: A_def QL_def)
  have xs1: "list_of ?s1 l = A @ x # bs"
    using l by (simp add: list_of_update)
  have d1: "distinct (A @ x # bs)" and d2: "distinct (A @ x # B)" and xA: "x \<notin> set A"
    unfolding A_def B_def using distinct_kept [OF dist] by blast+
  have l1: "l < length (m_lists ?s1)"
    using l by simp
  have e2: "eraseKey_right ?s1 ?n d n1 =
      (?s2, n1 + (if d = None then length (takeWhile QR bs) else 0))" for n1 d
    using eraseKey_right_run [OF xs1 d1 l1, of d n1]
    by (simp add: B_def QR_def key_of_def)
  have xs2: "list_of ?s2 l = A @ x # B"
    using l by (simp add: list_of_update)
  have prev: "Prev ?s2 ?n = Some (Node l (if A = [] then None else Some (last A)))"
    by (rule Prev_real [OF d2 xs2])
  have nxt: "Next ?s2 ?n = (case B of [] \<Rightarrow> None | b # r \<Rightarrow> Some (Node l (Some b)))"
    by (rule Next_real [OF d2 xs2])
  have u: "unlink ?s2 ?n = ?s3"
    using unlink_real [OF xs2 xA] by simp
  have pp: "Prev ?s2 (Node l (if A = [] then None else Some (last A))) = None \<longleftrightarrow> A = []"
  proof (cases "A = []")
    case True
    then show ?thesis by simp
  next
    case False
    then have "last A \<in> set (list_of ?s2 l)"
      using xs2 by simp
    then show ?thesis
      using False by (simp add: Prev_def)
  qed
  have nn: "(case B of [] \<Rightarrow> None | b # r \<Rightarrow> Some (Node l (Some b))) = None \<longleftrightarrow> B = []"
    by (cases B) simp_all
  have down: "?down = None \<longleftrightarrow> l = 0"
    by (simp add: Down_def)
  have dn: "l \<noteq> 0 \<Longrightarrow> ?down = Some (Node (l - 1) (Some x))"
    by (simp add: Down_def)
  show ?thesis
  proof (cases "l = 0")
    case True
    then have dz: "?down = None"
      using down by simp
    show ?thesis
      apply (subst eraseKeyRecursive.simps)
      apply (simp only: Let_def e1 e2 dz prod.case prev nxt u pp nn option.sel s5_def)
      apply (simp add: True split: list.splits)
      done
  next
    case False
    then have dz: "?down = Some (Node (l - 1) (Some x))"
      using dn by simp
    show ?thesis
      apply (subst eraseKeyRecursive.simps)
      apply (simp only: Let_def e1 e2 dz prod.case prev nxt u pp nn option.sel s5_def)
      apply (simp add: False)
      done
  qed
qed

lemma last_dropWhile: "dropWhile Q ys \<noteq> [] \<Longrightarrow> last (dropWhile Q ys) = last ys"
  using takeWhile_dropWhile_id [of Q ys] last_appendR [of "dropWhile Q ys" "takeWhile Q ys"]
  by simp

lemma hd_kept_left:
  assumes "rev (dropWhile Q (rev as)) \<noteq> []"
  shows "hd (rev (dropWhile Q (rev as))) = hd as"
proof -
  have "dropWhile Q (rev as) \<noteq> []"
    using assms by simp
  then have "last (dropWhile Q (rev as)) = last (rev as)"
    by (rule last_dropWhile)
  moreover have "as \<noteq> []"
    using assms by auto
  ultimately show ?thesis
    using assms by (simp add: hd_rev last_rev)
qed

lemma run_filter:
  fixes key :: "nat \<Rightarrow> 'k"
  assumes swo: "strict_weak_order cmp"
    and srt: "sorted_wrt (\<lambda>i j. \<not> cmp (key j) (key i)) (as @ x # bs)"
  defines "E \<equiv> \<lambda>e. \<not> cmp (key e) (key x) \<and> \<not> cmp (key x) (key e)"
  shows "rev (dropWhile (\<lambda>e. \<not> cmp (key e) (key x)) (rev as)) = filter (\<lambda>e. \<not> E e) as"
    and "dropWhile (\<lambda>e. \<not> cmp (key x) (key e)) bs = filter (\<lambda>e. \<not> E e) bs"
    and "length (takeWhile (\<lambda>e. \<not> cmp (key e) (key x)) (rev as)) = length (filter E as)"
    and "length (takeWhile (\<lambda>e. \<not> cmp (key x) (key e)) bs) = length (filter E bs)"
proof -
  let ?R = "\<lambda>i j. \<not> cmp (key j) (key i)"
  have sa: "sorted_wrt ?R as" and sb: "sorted_wrt ?R bs"
    and a_le: "\<forall>a\<in>set as. \<not> cmp (key x) (key a)"
    and b_ge: "\<forall>b\<in>set bs. \<not> cmp (key b) (key x)"
    using srt by (simp_all add: sorted_wrt_append)
  have rL: "rising (\<lambda>e. cmp (key e) (key x)) (rev as)"
    unfolding rising_def sorted_wrt_rev
  proof (rule sorted_wrt_mono_rel [OF _ sa])
    fix i j
    assume "\<not> cmp (key j) (key i)"
    then show "cmp (key j) (key x) \<longrightarrow> cmp (key i) (key x)"
      using swo unfolding strict_weak_order_def by blast
  qed
  have rR: "rising (\<lambda>e. cmp (key x) (key e)) bs"
    unfolding rising_def
  proof (rule sorted_wrt_mono_rel [OF _ sb])
    fix i j
    assume "\<not> cmp (key j) (key i)"
    then show "cmp (key x) (key i) \<longrightarrow> cmp (key x) (key j)"
      using swo unfolding strict_weak_order_def by blast
  qed
  note tl = rising_takeWhile [OF rL]
  note tr = rising_takeWhile [OF rR]
  have fa: "filter (\<lambda>e. cmp (key e) (key x)) as = filter (\<lambda>e. \<not> E e) as"
    using a_le by (intro filter_cong) (auto simp: E_def)
  have fa': "filter (\<lambda>e. \<not> cmp (key e) (key x)) as = filter E as"
    using a_le by (intro filter_cong) (auto simp: E_def)
  have fb: "filter (\<lambda>e. cmp (key x) (key e)) bs = filter (\<lambda>e. \<not> E e) bs"
    using b_ge by (intro filter_cong) (auto simp: E_def)
  have fb': "filter (\<lambda>e. \<not> cmp (key x) (key e)) bs = filter E bs"
    using b_ge by (intro filter_cong) (auto simp: E_def)
  show "rev (dropWhile (\<lambda>e. \<not> cmp (key e) (key x)) (rev as)) = filter (\<lambda>e. \<not> E e) as"
    using tl fa by (simp add: rev_filter)
  show "dropWhile (\<lambda>e. \<not> cmp (key x) (key e)) bs = filter (\<lambda>e. \<not> E e) bs"
    using tr fb by simp
  have "length (filter (\<lambda>e. \<not> cmp (key e) (key x)) (rev as))
      = length (filter (\<lambda>e. \<not> cmp (key e) (key x)) as)"
    by (simp add: rev_filter [symmetric])
  then show "length (takeWhile (\<lambda>e. \<not> cmp (key e) (key x)) (rev as)) = length (filter E as)"
    using tl fa' by simp
  show "length (takeWhile (\<lambda>e. \<not> cmp (key x) (key e)) bs) = length (filter E bs)"
    using tr fb' by simp
qed

definition other_key :: "('k, 'v) Skiplist \<Rightarrow> nat \<Rightarrow> nat \<Rightarrow> bool" where
  "other_key s x e \<longleftrightarrow> \<not> equivalent s (key_of s e) (key_of s x)"

lemma other_key_frame:
  "m_keyCompare s' = m_keyCompare s \<Longrightarrow> pairs s' = pairs s \<Longrightarrow> other_key s' = other_key s"
  by (intro ext) (simp add: other_key_def equivalent_def key_of_def)

definition end_nodes :: "nat list \<Rightarrow> Node option \<times> Node option" where
  "end_nodes ys = (case ys of [] \<Rightarrow> None | b # r \<Rightarrow> Some (Node 0 (Some b)),
                   Some (Node 0 (if ys = [] then None else Some (last ys))))"

lemma eraseKeyRecursive_sorted_level:
  fixes s :: "('k, 'v) Skiplist"
  assumes swo: "strict_weak_order (m_keyCompare s)"
    and x: "x \<in> set (list_of s l)" and dist: "distinct (list_of s l)"
    and srt: "sorted_wrt (\<lambda>i j. \<not> m_keyCompare s (key_of s j) (key_of s i)) (list_of s l)"
    and l: "l < length (m_lists s)"
    and ends: "l = 0 \<Longrightarrow> m_begin s = Some (Node 0 (Some (hd (list_of s 0))))
                 \<and> m_tail s = Some (Node 0 (Some (last (list_of s 0))))"
  defines "ys \<equiv> filter (other_key s x) (list_of s l)"
  shows "eraseKeyRecursive s (Some (Node l (Some x))) =
           (if l = 0
            then (length (filter (\<lambda>e. \<not> other_key s x e) (list_of s 0)),
                  s\<lparr> m_lists := (m_lists s)[0 := ys], m_begin := fst (end_nodes ys),
                     m_tail := snd (end_nodes ys) \<rparr>)
            else eraseKeyRecursive (s\<lparr> m_lists := (m_lists s)[l := ys] \<rparr>)
                   (Some (Node (l - 1) (Some x))))"
proof -
  obtain as bs where xs: "list_of s l = as @ x # bs"
    using x by (meson split_list)
  have d: "distinct (as @ x # bs)"
    using dist xs by simp
  have s': "sorted_wrt (\<lambda>i j. \<not> m_keyCompare s (key_of s j) (key_of s i)) (as @ x # bs)"
    using srt xs by simp
  let ?QL = "\<lambda>e. \<not> m_keyCompare s (key_of s e) (key_of s x)"
  let ?QR = "\<lambda>e. \<not> m_keyCompare s (key_of s x) (key_of s e)"
  let ?A = "rev (dropWhile ?QL (rev as))"
  let ?B = "dropWhile ?QR bs"
  note rf = run_filter [OF swo s']
  have ok: "other_key s x = (\<lambda>e. \<not> (\<not> m_keyCompare s (key_of s e) (key_of s x)
      \<and> \<not> m_keyCompare s (key_of s x) (key_of s e)))"
    by (intro ext) (simp add: other_key_def equivalent_def)
  have nx: "\<not> other_key s x x"
    using swo by (simp add: other_key_def equivalent_def strict_weak_order_def)
  have A: "?A = filter (other_key s x) as" and B: "?B = filter (other_key s x) bs"
    using rf(1,2) by (simp_all add: ok)
  have ys: "ys = ?A @ ?B"
    using nx by (simp add: ys_def xs A B)
  have cnt: "length (takeWhile ?QL (rev as)) + length (takeWhile ?QR bs) + 1
      = length (filter (\<lambda>e. \<not> other_key s x e) (as @ x # bs))"
    using rf(3,4) nx by (simp add: ok)
  note lev = eraseKeyRecursive_level [OF xs d l]
  show ?thesis
  proof (cases "l = 0")
    case False
    then show ?thesis
      using lev by (simp add: ys)
  next
    case True
    have b: "m_begin s = Some (Node 0 (Some (hd (as @ x # bs))))"
      and t: "m_tail s = Some (Node 0 (Some (last (as @ x # bs))))"
      using ends [OF True] xs True by simp_all
    have hA: "?A \<noteq> [] \<Longrightarrow> hd ?A = hd as \<and> as \<noteq> []"
      using hd_kept_left [of ?QL as] by auto
    have lB: "?B \<noteq> [] \<Longrightarrow> last ?B = last bs \<and> bs \<noteq> []"
      using last_dropWhile [of ?QR bs] by auto
    have e1: "(if ?A = [] then (case ?B of [] \<Rightarrow> None | b # r \<Rightarrow> Some (Node 0 (Some b)))
               else m_begin s) = fst (end_nodes ys)"
    proof (cases "?A = []")
      case True
      have "ys = ?B"
        unfolding ys True by simp
      then show ?thesis
        by (simp only: True if_True end_nodes_def fst_conv simp_thms)
    next
      case False
      then obtain a r where ar: "?A = a # r"
        by (cases ?A) auto
      then have "hd as = a \<and> as \<noteq> []"
        using hA by simp
      then show ?thesis
        using ar b by (simp add: ys end_nodes_def hd_append)
    qed
    have e2: "(if ?B = [] then Some (Node 0 (if ?A = [] then None else Some (last ?A)))
               else m_tail s) = snd (end_nodes ys)"
    proof (cases "?B = []")
      case True
      have "ys = ?A"
        unfolding ys True by simp
      then show ?thesis
        by (simp only: True if_True end_nodes_def snd_conv simp_thms)
    next
      case False
      then have "last ?B = last bs \<and> bs \<noteq> []"
        using lB by simp
      then show ?thesis
        using False t by (simp add: ys end_nodes_def)
    qed
    show ?thesis
      using lev cnt e1 e2 True xs by (simp add: ys)
  qed
qed

definition erased_lists :: "(nat \<Rightarrow> bool) \<Rightarrow> nat \<Rightarrow> nat list list \<Rightarrow> nat list list" where
  "erased_lists F l ls = map (filter F) (take (Suc l) ls) @ drop (Suc l) ls"

lemma erased_lists_0: "0 < length ls \<Longrightarrow> ls[0 := filter F (ls ! 0)] = erased_lists F 0 ls"
  by (cases ls) (simp_all add: erased_lists_def)

lemma erased_lists_Suc:
  assumes "Suc l < length ls"
  shows "erased_lists F l (ls[Suc l := filter F (ls ! Suc l)]) = erased_lists F (Suc l) ls"
proof -
  have "drop (Suc l) (ls[Suc l := filter F (ls ! Suc l)])
      = filter F (ls ! Suc l) # drop (Suc (Suc l)) ls"
    using assms by (simp add: upd_conv_take_nth_drop)
  moreover have "take (Suc (Suc l)) ls = take (Suc l) ls @ [ls ! Suc l]"
    using assms by (simp add: take_Suc_conv_app_nth)
  ultimately show ?thesis
    by (simp add: erased_lists_def)
qed

lemma eraseKeyRecursive_column:
  fixes s :: "('k, 'v) Skiplist"
  assumes swo: "strict_weak_order (m_keyCompare s)"
    and l: "l < length (m_lists s)"
    and col: "\<forall>j\<le>l. x \<in> set (list_of s j) \<and> distinct (list_of s j)
        \<and> sorted_wrt (\<lambda>i j. \<not> m_keyCompare s (key_of s j) (key_of s i)) (list_of s j)"
    and ends: "m_begin s = Some (Node 0 (Some (hd (list_of s 0))))"
              "m_tail s = Some (Node 0 (Some (last (list_of s 0))))"
  shows "eraseKeyRecursive s (Some (Node l (Some x))) =
           (length (filter (\<lambda>e. \<not> other_key s x e) (list_of s 0)),
            s\<lparr> m_lists := erased_lists (other_key s x) l (m_lists s),
               m_begin := fst (end_nodes (filter (other_key s x) (list_of s 0))),
               m_tail := snd (end_nodes (filter (other_key s x) (list_of s 0))) \<rparr>)"
  using assms
proof (induction l arbitrary: s)
  case 0
  have c: "x \<in> set (list_of s 0)" "distinct (list_of s 0)"
    "sorted_wrt (\<lambda>i j. \<not> m_keyCompare s (key_of s j) (key_of s i)) (list_of s 0)"
    using "0.prems"(3) by simp_all
  have e: "(m_lists s)[0 := filter (other_key s x) (list_of s 0)]
      = erased_lists (other_key s x) 0 (m_lists s)"
    using erased_lists_0 [of "m_lists s" "other_key s x"] "0.prems"(2)
    by (simp add: list_of_nth)
  show ?case
    using eraseKeyRecursive_sorted_level [OF "0.prems"(1) c "0.prems"(2)] "0.prems"(4,5) e
    by simp
next
  case (Suc l)
  let ?F = "other_key s x"
  let ?s = "s\<lparr> m_lists := (m_lists s)[Suc l := filter ?F (list_of s (Suc l))] \<rparr>"
  have c: "x \<in> set (list_of s (Suc l))" "distinct (list_of s (Suc l))"
    "sorted_wrt (\<lambda>i j. \<not> m_keyCompare s (key_of s j) (key_of s i)) (list_of s (Suc l))"
    using Suc.prems(3) by simp_all
  have step: "eraseKeyRecursive s (Some (Node (Suc l) (Some x)))
      = eraseKeyRecursive ?s (Some (Node l (Some x)))"
    using eraseKeyRecursive_sorted_level [OF Suc.prems(1) c Suc.prems(2)] by simp
  have same: "list_of ?s j = list_of s j" if "j \<le> l" for j
    using that by (simp add: list_of_update)
  have F: "other_key ?s = other_key s"
    by (rule other_key_frame) simp_all
  have k: "key_of ?s = key_of s"
    by (intro ext) (simp add: key_of_def)
  have col': "\<forall>j\<le>l. x \<in> set (list_of ?s j) \<and> distinct (list_of ?s j)
        \<and> sorted_wrt (\<lambda>i j. \<not> m_keyCompare ?s (key_of ?s j) (key_of ?s i)) (list_of ?s j)"
    using Suc.prems(3) same by (simp add: k)
  have ih: "eraseKeyRecursive ?s (Some (Node l (Some x))) =
           (length (filter (\<lambda>e. \<not> other_key ?s x e) (list_of ?s 0)),
            ?s\<lparr> m_lists := erased_lists (other_key ?s x) l (m_lists ?s),
               m_begin := fst (end_nodes (filter (other_key ?s x) (list_of ?s 0))),
               m_tail := snd (end_nodes (filter (other_key ?s x) (list_of ?s 0))) \<rparr>)"
  proof (rule Suc.IH)
    show "strict_weak_order (m_keyCompare ?s)"
      using Suc.prems(1) by simp
    show "l < length (m_lists ?s)"
      using Suc.prems(2) by simp
    show "\<forall>j\<le>l. x \<in> set (list_of ?s j) \<and> distinct (list_of ?s j)
        \<and> sorted_wrt (\<lambda>i j. \<not> m_keyCompare ?s (key_of ?s j) (key_of ?s i)) (list_of ?s j)"
      by (rule col')
    show "m_begin ?s = Some (Node 0 (Some (hd (list_of ?s 0))))"
      using Suc.prems(4) same [of 0] by simp
    show "m_tail ?s = Some (Node 0 (Some (last (list_of ?s 0))))"
      using Suc.prems(5) same [of 0] by simp
  qed
  have e: "erased_lists ?F l (m_lists ?s) = erased_lists ?F (Suc l) (m_lists s)"
    using erased_lists_Suc [OF Suc.prems(2), of ?F] Suc.prems(2) by (simp add: list_of_nth)
  show ?case
    unfolding step ih F e same [of 0, simplified] by simp
qed

definition example_multi :: "(nat, nat) Skiplist" where
  "example_multi = foldl (\<lambda>s k. snd (insert s (k, 10 * k)))
     (Skiplist_ctor True (<) example_rng (\<lambda>a. (0, 0)) 0) [2, 1, 3, 3, 4, 3, 5, 3, 7]"

lemma cmp_multi: "m_keyCompare example_multi = (<)"
  by (simp add: example_multi_def insert_def Skiplist_ctor_def)

lemma invariant_example_multi: "invariant example_multi"
proof -
  have "structure_ok example_multi"
    by code_simp
  then show ?thesis
    by (simp add: invariant_def cmp_multi swo_less)
qed

lemma nested_le: "nested ls \<Longrightarrow> l < length ls \<Longrightarrow> j \<le> l \<Longrightarrow> set (ls ! l) \<subseteq> set (ls ! j)"
proof (induction l)
  case 0
  then show ?case by simp
next
  case (Suc l)
  show ?case
  proof (cases "j = Suc l")
    case True
    then show ?thesis by simp
  next
    case False
    then have "set (ls ! l) \<subseteq> set (ls ! j)"
      using Suc by simp
    then show ?thesis
      using nested_nth [OF Suc.prems(1,2)] by blast
  qed
qed

lemma invariant_lists:
  assumes "invariant s" "j < length (m_lists s)"
  shows "distinct (list_of s j)"
    and "sorted_wrt (\<lambda>i j. \<not> m_keyCompare s (key_of s j) (key_of s i)) (list_of s j)"
proof -
  have "list_all (\<lambda>xs. xs = filter (\<lambda>i. i \<in> set xs) (list_of s 0)) (m_lists s)"
    using assms(1) by (simp add: invariant_def structure_ok_def)
  then have "m_lists s ! j = filter (\<lambda>i. i \<in> set (m_lists s ! j)) (list_of s 0)"
    using assms(2) by (simp add: list_all_length)
  then obtain P where f: "list_of s j = filter P (list_of s 0)"
    using assms(2) by (auto simp: list_of_nth)
  show "distinct (list_of s j)"
    using invariantD(3) [OF assms(1)] by (simp add: f)
  show "sorted_wrt (\<lambda>i j. \<not> m_keyCompare s (key_of s j) (key_of s i)) (list_of s j)"
    using invariantD(4) [OF assms(1)] by (simp add: f sorted_wrt_filter)
qed

lemma m_count_removeLevels [simp]: "m_count (removeLevels s) = m_count s"
proof (induction s rule: removeLevels.induct)
  case (1 s)
  show ?case
    using 1 by (subst removeLevels.simps) (simp add: removeLevel_def updateMinMax_def Let_def)
qed

lemma strict_one:
  assumes swo: "strict_weak_order cmp"
    and srt: "sorted_wrt (\<lambda>i j. cmp (key i) (key j)) xs"
  shows "length (filter (\<lambda>e. \<not> cmp (key e) k \<and> \<not> cmp k (key e)) xs) \<le> 1"
  using srt
proof (induction xs)
  case Nil
  then show ?case by simp
next
  case (Cons a xs)
  show ?case
  proof (cases "\<not> cmp (key a) k \<and> \<not> cmp k (key a)")
    case True
    have "\<forall>b\<in>set xs. cmp (key a) (key b)"
      using Cons.prems by simp
    then have "\<forall>b\<in>set xs. \<not> (\<not> cmp (key b) k \<and> \<not> cmp k (key b))"
      using True swo unfolding strict_weak_order_def by blast
    then have "filter (\<lambda>e. \<not> cmp (key e) k \<and> \<not> cmp k (key e)) xs = []"
      by (simp add: filter_empty_conv)
    then show ?thesis
      using True by simp
  next
    case False
    then show ?thesis
      using Cons by auto
  qed
qed

lemma size_sub_le [simp]: "b \<le> a \<Longrightarrow> size_sub a b = a - b"
  by (simp add: size_sub_def)

lemma erase_count:
  assumes inv: "invariant s"
  shows "fst (erase s k) = length (filter (\<lambda>i. equivalent s (key_of s i) k) (list_of s 0))
       \<and> m_count (snd (erase s k)) = m_count s - fst (erase s k)"
proof (cases "findRecursive s (m_head s) k")
  case None
  then have "\<forall>x\<in>set (list_of s 0). \<not> equivalent s (key_of s x) k"
    using findRecursive_head [OF inv, of k] by simp
  then have "filter (\<lambda>i. equivalent s (key_of s i) k) (list_of s 0) = []"
    by (simp add: filter_empty_conv)
  then show ?thesis
    using None by (simp add: erase_def)
next
  case (Some n)
  then obtain x where x: "KeyValPair n = Some x" "node_ok s n" "x \<in> set (list_of s 0)"
    "equivalent s (key_of s x) k"
    using findRecursive_head [OF inv, of k] by blast
  define l where "l = Level n"
  have n: "n = Node l (Some x)"
    using x(1) by (cases n) (simp add: l_def)
  have l: "l < length (m_lists s)" and xl: "x \<in> set (m_lists s ! l)"
    using x(1,2) by (simp_all add: node_ok_def l_def)
  note d = invariantD [OF inv]
  have col: "\<forall>j\<le>l. x \<in> set (list_of s j) \<and> distinct (list_of s j)
        \<and> sorted_wrt (\<lambda>i j. \<not> m_keyCompare s (key_of s j) (key_of s i)) (list_of s j)"
  proof (intro allI impI)
    fix j
    assume j: "j \<le> l"
    then have "x \<in> set (list_of s j)"
      using nested_le [OF d(2) l j] xl l by (auto simp: list_of_nth)
    then show "x \<in> set (list_of s j) \<and> distinct (list_of s j)
        \<and> sorted_wrt (\<lambda>i j. \<not> m_keyCompare s (key_of s j) (key_of s i)) (list_of s j)"
      using invariant_lists [OF inv, of j] j l by simp
  qed
  have ne: "list_of s 0 \<noteq> []"
    using x(3) by auto
  have b: "m_begin s = Some (Node 0 (Some (hd (list_of s 0))))"
    using inv ne by (cases "list_of s 0") (simp_all add: invariant_def structure_ok_def)
  have t: "m_tail s = Some (Node 0 (Some (last (list_of s 0))))"
    using inv ne by (simp add: invariant_def structure_ok_def)
  note run = eraseKeyRecursive_column [OF d(1) l col b t]
  have eq: "(\<lambda>e. \<not> other_key s x e) = (\<lambda>i. equivalent s (key_of s i) k)"
  proof (intro ext)
    fix e
    show "(\<not> other_key s x e) = equivalent s (key_of s e) k"
      using x(4) d(1) unfolding other_key_def equivalent_def strict_weak_order_def by blast
  qed
  have c: "m_count s = length (list_of s 0)"
    using inv by (simp add: invariant_def structure_ok_def)
  have le: "length (filter (\<lambda>i. equivalent s (key_of s i) k) (list_of s 0)) \<le> m_count s"
    by (simp add: c)
  show ?thesis
    using Some le by (simp add: erase_def n run eq Let_def)
qed

text \<open>
  C3. \<^verbatim>\<open>erase(k)\<close> returns the number of stored entries whose key is equivalent to \<open>k\<close>,
  which is 0 when there is none; \<^verbatim>\<open>size()\<close> afterwards is the size before minus the
  number returned, and that number is at most the size; in a map the number is 0 or 1.
\<close>

theorem erase_key_returns_count:
  assumes "invariant s"
  shows "fst (erase s k) = length (filter (\<lambda>i. equivalent s (fst (pairs s i)) k) (list_of s 0))
       \<and> m_count (snd (erase s k)) = m_count s - fst (erase s k)
       \<and> fst (erase s k) \<le> m_count s
       \<and> (\<not> s_MULTIMAP s \<longrightarrow> fst (erase s k) \<le> 1)"
proof -
  note e = erase_count [OF assms, of k]
  have c: "m_count s = length (list_of s 0)"
    using assms by (simp add: invariant_def structure_ok_def)
  have one: "fst (erase s k) \<le> 1" if "\<not> s_MULTIMAP s"
  proof -
    have "sorted_wrt (\<lambda>i j. m_keyCompare s (key_of s i) (key_of s j)) (list_of s 0)"
      using assms that by (simp add: invariant_def structure_ok_def ordered_def)
    then show ?thesis
      using strict_one [OF invariantD(1) [OF assms], of "key_of s" "list_of s 0" k] e
      by (simp add: equivalent_def)
  qed
  show ?thesis
    using e c one by (simp add: key_of_def)
qed

theorem erase_key_returns_count_witness:
  "fst (erase example_multi 3) = 4 \<and> m_count (snd (erase example_multi 3)) = 5
   \<and> fst (erase example_multi 6) = 0 \<and> m_count (snd (erase example_multi 6)) = 9
   \<and> fst (erase example_seven 3) \<le> 1"
proof -
  have a: "length (filter (\<lambda>i. equivalent example_multi (fst (pairs example_multi i)) 3)
      (list_of example_multi 0)) = 4"
    by code_simp
  have b: "length (filter (\<lambda>i. equivalent example_multi (fst (pairs example_multi i)) 6)
      (list_of example_multi 0)) = 0"
    by code_simp
  have c: "m_count example_multi = 9"
    by code_simp
  have d: "\<not> s_MULTIMAP example_seven"
    by code_simp
  show ?thesis
    using erase_key_returns_count [OF invariant_example_multi, of 3]
      erase_key_returns_count [OF invariant_example_multi, of 6]
      erase_key_returns_count [OF invariant_example_seven, of 3] a b c d
    by simp
qed

end
